theory Spec2Isabelle
  imports Complex_Main "HOL-Library.Monad_Syntax" "HOL-Library.Finite_Map"
begin

section \<open>Exceptions and identifiers\<close>

text \<open>
  The exception classes named in \<^verbatim>\<open>datastructures.h\<close> and in the test file. A
  \<^verbatim>\<open>throw\<close> of the source is the \<open>Inl\<close> branch of a result; the message string that
  the C++ exception carries is not modelled.
\<close>

datatype error =
    ElementNotFoundException
  | DuplicateElementException
  | OperationNotSupportedException
  | WrongParameterException

text \<open>
  \<^verbatim>\<open>typedef long object_id\<close> (and \<open>node_id\<close>, \<open>edge_id\<close>, \<open>actor_id\<close>);
  \<^verbatim>\<open>typedef int layer_id\<close>. Identifiers are only compared and stored, never
  computed with inside the containers, so they are kept as mathematical integers.
\<close>

type_synonym object_id = int

section \<open>AttributeStore\<close>

datatype attribute_type = STRING_TYPE | NUMERIC_TYPE

record Attribute =
  aname :: string
  atype :: attribute_type

text \<open>
  The fields of \<^verbatim>\<open>class AttributeStore\<close> as the header declares them. The two
  default values are public, assignable members initialised to \<open>0.0\<close> and \<open>""\<close>.
  A C++ \<open>double\<close> is only stored and returned here, never computed with; it is
  represented by a real number.
\<close>

record AttributeStore =
  default_numeric :: real
  default_string :: string
  attribute_vector :: "Attribute list"
  attribute_ids :: "string \<rightharpoonup> nat"
  string_attribute :: "string \<rightharpoonup> (object_id \<rightharpoonup> string)"
  numeric_attribute :: "string \<rightharpoonup> (object_id \<rightharpoonup> real)"

text \<open>The store right after construction: no attribute, defaults as initialised.\<close>

definition AttributeStore_new :: AttributeStore where
  "AttributeStore_new =
     \<lparr>default_numeric = 0, default_string = [], attribute_vector = [],
      attribute_ids = Map.empty, string_attribute = Map.empty,
      numeric_attribute = Map.empty\<rparr>"

text \<open>
  Modelled from the spec: the member functions of \<open>AttributeStore\<close>
  (\<open>attribute\<close>, \<open>add\<close>, \<open>setString\<close>, \<open>setNumeric\<close>, \<open>getString\<close>,
  \<open>getNumeric\<close>, \<open>remove\<close>) are declared in the header but their bodies are
  not part of the sources. They follow section 4.2 of the specification and the
  documentation comments of the declarations: \<open>attribute(name)\<close> is absent for
  an unregistered name.
\<close>

definition AttributeStore_attribute :: "AttributeStore \<Rightarrow> string \<Rightarrow> Attribute option" where
  "AttributeStore_attribute s n =
     (case attribute_ids s n of
        None \<Rightarrow> None
      | Some i \<Rightarrow> if i < length (attribute_vector s) then Some (attribute_vector s ! i) else None)"

text \<open>
  Modelled from the spec: \<open>add(name, type)\<close> registers a new attribute with an
  empty value table and fails with a duplicate error if the name is registered.
\<close>

definition AttributeStore_add ::
  "AttributeStore \<Rightarrow> string \<Rightarrow> attribute_type \<Rightarrow> error + AttributeStore" where
  "AttributeStore_add s n t =
     (if AttributeStore_attribute s n \<noteq> None then Inl DuplicateElementException
      else Inr (s\<lparr>attribute_vector := attribute_vector s @ [\<lparr>aname = n, atype = t\<rparr>],
                  attribute_ids := (attribute_ids s)(n \<mapsto> length (attribute_vector s)),
                  string_attribute :=
                    (if t = STRING_TYPE then (string_attribute s)(n \<mapsto> Map.empty)
                     else string_attribute s),
                  numeric_attribute :=
                    (if t = NUMERIC_TYPE then (numeric_attribute s)(n \<mapsto> Map.empty)
                     else numeric_attribute s)\<rparr>))"





text \<open>
  Modelled from the spec: \<open>remove(id)\<close> deletes all values of \<open>id\<close> across all
  attributes of the store.
\<close>

definition AttributeStore_remove :: "AttributeStore \<Rightarrow> object_id \<Rightarrow> AttributeStore" where
  "AttributeStore_remove s oid =
     s\<lparr>string_attribute := (\<lambda>n. map_option (\<lambda>m. m(oid := None)) (string_attribute s n)),
       numeric_attribute := (\<lambda>n. map_option (\<lambda>m. m(oid := None)) (numeric_attribute s n))\<rparr>"

section \<open>ObjectStore: the skip list with link lengths\<close>

text \<open>
  \<^verbatim>\<open>const int MAX_LEVEL = 6\<close>. The constant \<open>P\<close> is only passed to
  \<open>random_utils::random_level\<close>, whose body is not part of the sources: the level it
  returns is a parameter of \<open>insert\<close> below.
\<close>

definition MAX_LEVEL :: nat where
  "MAX_LEVEL = 6"

text \<open>
  Entries live on the heap and are linked by raw pointers, so the model has an explicit
  store: an address is a natural number, \<open>NULL\<close> is \<open>None\<close>. The handle type \<open>T\<close> is
  a shared pointer that can itself be \<open>NULL\<close>; it is an \<open>'a option\<close>.
  The field \<open>value\<close> of the source is called \<open>entry_value\<close>.
\<close>

type_synonym addr = nat

record 'a Entry =
  entry_value :: object_id
  obj_ptr :: "'a option"
  forward :: "addr option list"
  link_length :: "int list"

text \<open>The constructor \<open>Entry(level, value, obj_ptr)\<close>: both vectors get \<open>level+1\<close>
  value-initialised slots.\<close>

definition Entry_new :: "nat \<Rightarrow> object_id \<Rightarrow> 'a option \<Rightarrow> 'a Entry" where
  "Entry_new lvl v p =
     \<lparr>entry_value = v, obj_ptr = p,
      forward = replicate (lvl + 1) None, link_length = replicate (lvl + 1) 0\<rparr>"

type_synonym 'a heap = "addr \<rightharpoonup> 'a Entry"

record 'a ObjectStore =
  heap :: "'a heap"
  header :: addr
  level :: nat
  num_entries :: int

text \<open>The constructor \<open>ObjectStore()\<close>; \<open>a\<close> is the address \<open>new\<close> returns for the
  header.\<close>

definition ObjectStore_new :: "addr \<Rightarrow> 'a ObjectStore" where
  "ObjectStore_new a =
     \<lparr>heap = [a \<mapsto> Entry_new MAX_LEVEL 0 None], header = a, level = 0, num_entries = 0\<rparr>"

text \<open>
  Reads and writes through a pointer. Dereferencing an address that holds no entry and
  indexing a vector out of range are undefined behaviour in the source; here they yield
  \<open>None\<close>, and so does every operation that runs into them.
\<close>

definition get_forward :: "'a heap \<Rightarrow> addr \<Rightarrow> nat \<Rightarrow> addr option option" where
  "get_forward h x i =
     (case h x of None \<Rightarrow> None
      | Some e \<Rightarrow> if i < length (forward e) then Some (forward e ! i) else None)"

definition get_link_length :: "'a heap \<Rightarrow> addr \<Rightarrow> nat \<Rightarrow> int option" where
  "get_link_length h x i =
     (case h x of None \<Rightarrow> None
      | Some e \<Rightarrow> if i < length (link_length e) then Some (link_length e ! i) else None)"

definition set_forward :: "'a heap \<Rightarrow> addr \<Rightarrow> nat \<Rightarrow> addr option \<Rightarrow> 'a heap option" where
  "set_forward h x i y =
     (case h x of None \<Rightarrow> None
      | Some e \<Rightarrow> if i < length (forward e)
                  then Some (h(x \<mapsto> e\<lparr>forward := (forward e)[i := y]\<rparr>)) else None)"

definition set_link_length :: "'a heap \<Rightarrow> addr \<Rightarrow> nat \<Rightarrow> int \<Rightarrow> 'a heap option" where
  "set_link_length h x i l =
     (case h x of None \<Rightarrow> None
      | Some e \<Rightarrow> if i < length (link_length e)
                  then Some (h(x \<mapsto> e\<lparr>link_length := (link_length e)[i := l]\<rparr>)) else None)"

text \<open>A counted \<open>for\<close> loop over the given indices, threading the loop state.\<close>

fun for_each :: "nat list \<Rightarrow> (nat \<Rightarrow> 's \<Rightarrow> 's option) \<Rightarrow> 's \<Rightarrow> 's option" where
  "for_each [] body st = Some st"
| "for_each (i # js) body st =
     (case body i st of None \<Rightarrow> None | Some st' \<Rightarrow> for_each js body st')"

text \<open>\<open>for (int i = level; i >= 0; i--)\<close> visits these indices.\<close>

definition down_from :: "nat \<Rightarrow> nat list" where
  "down_from l = rev [0..<l + 1]"

text \<open>
  The inner loop of \<open>contains\<close>, \<open>get\<close> and \<open>erase\<close>:
  \<^verbatim>\<open>while (x->forward[i] != NULL && x->forward[i]->value < search_value) x = x->forward[i];\<close>
  On a heap with a cycle the loop need not end: not returning is \<open>None\<close>.
\<close>

partial_function (option) advance :: "'a heap \<Rightarrow> nat \<Rightarrow> object_id \<Rightarrow> addr \<Rightarrow> addr option" where
  "advance h i v x =
     (case get_forward h x i of
        None \<Rightarrow> None
      | Some None \<Rightarrow> Some x
      | Some (Some y) \<Rightarrow>
          (case h y of
             None \<Rightarrow> None
           | Some e \<Rightarrow> if entry_value e < v then advance h i v y else Some x))"

declare advance.simps [code]

definition ObjectStore_size :: "'a ObjectStore \<Rightarrow> int" where
  "ObjectStore_size s = num_entries s"

definition ObjectStore_contains :: "'a ObjectStore \<Rightarrow> object_id \<Rightarrow> bool option" where
  "ObjectStore_contains s search_value =
     (case for_each (down_from (level s)) (\<lambda>i x. advance (heap s) i search_value x) (header s) of
        None \<Rightarrow> None
      | Some x \<Rightarrow>
         (case get_forward (heap s) x 0 of
            None \<Rightarrow> None
          | Some None \<Rightarrow> Some False
          | Some (Some y) \<Rightarrow>
             (case heap s y of
                None \<Rightarrow> None
              | Some e \<Rightarrow> Some (entry_value e = search_value))))"

text \<open>\<open>get\<close> returns a handle; the inner \<open>None\<close> is the \<open>NULL\<close> handle.\<close>

definition ObjectStore_get :: "'a ObjectStore \<Rightarrow> object_id \<Rightarrow> 'a option option" where
  "ObjectStore_get s search_value =
     (case for_each (down_from (level s)) (\<lambda>i x. advance (heap s) i search_value x) (header s) of
        None \<Rightarrow> None
      | Some x \<Rightarrow>
         (case get_forward (heap s) x 0 of
            None \<Rightarrow> None
          | Some None \<Rightarrow> Some None
          | Some (Some y) \<Rightarrow>
             (case heap s y of
                None \<Rightarrow> None
              | Some e \<Rightarrow> if entry_value e = search_value then Some (obj_ptr e) else Some None)))"




text \<open>
  The search loop of \<open>insert\<close>. Its state is \<open>x\<close>, \<open>update\<close>,
  \<open>skipped_positions_per_level\<close> and \<open>skipped_positions\<close>.
\<close>

partial_function (option) advance_insert ::
  "'a heap \<Rightarrow> nat \<Rightarrow> object_id \<Rightarrow> addr \<times> int list \<times> int \<Rightarrow> (addr \<times> int list \<times> int) option" where
  "advance_insert h i v st =
     (case st of (x, spl, sk) \<Rightarrow>
       (case get_forward h x i of
          None \<Rightarrow> None
        | Some None \<Rightarrow> Some (x, spl, sk)
        | Some (Some y) \<Rightarrow>
            (case h y of
               None \<Rightarrow> None
             | Some e \<Rightarrow>
                 if entry_value e < v then
                   (case get_link_length h x i of
                      None \<Rightarrow> None
                    | Some l \<Rightarrow> advance_insert h i v (y, spl[i := spl ! i + l], sk + l))
                 else Some (x, spl, sk))))"

declare advance_insert.simps [code]

definition insert_search ::
  "'a heap \<Rightarrow> object_id \<Rightarrow> nat \<Rightarrow> addr \<times> addr option list \<times> int list \<times> int \<Rightarrow>
   (addr \<times> addr option list \<times> int list \<times> int) option" where
  "insert_search h v i st =
     (case st of (x, update, spl, sk) \<Rightarrow>
       (case advance_insert h i v (x, spl[i := sk], sk) of
          None \<Rightarrow> None
        | Some (x', spl', sk') \<Rightarrow> Some (x', update[i := Some x'], spl', sk')))"

text \<open>
  \<^verbatim>\<open>for (int i = level + 1; i <= lvl; i++) { update[i] = header; update[i]->link_length[i] = num_entries; }\<close>
\<close>

definition insert_raise ::
  "addr \<Rightarrow> int \<Rightarrow> nat \<Rightarrow> 'a heap \<times> addr option list \<Rightarrow> ('a heap \<times> addr option list) option" where
  "insert_raise hdr n i st =
     (case st of (h, update) \<Rightarrow>
       (case set_link_length h hdr i n of
          None \<Rightarrow> None
        | Some h' \<Rightarrow> Some (h', update[i := Some hdr])))"

text \<open>The body of the loop \<open>for (int i = 0; i <= lvl; i++)\<close> that links the new entry
  \<open>x\<close> in.\<close>

definition insert_link ::
  "addr option list \<Rightarrow> int list \<Rightarrow> int \<Rightarrow> int \<Rightarrow> addr \<Rightarrow> nat \<Rightarrow> 'a heap \<Rightarrow> 'a heap option" where
  "insert_link update spl sk n x i h =
     (let offset = sk - spl ! i in
      do {
        u \<leftarrow> update ! i;
        f \<leftarrow> get_forward h u i;
        h1 \<leftarrow> set_forward h x i f;
        f' \<leftarrow> get_forward h1 u i;
        h2 \<leftarrow> (case f' of
                 None \<Rightarrow> set_link_length h1 x i (n - sk)
               | Some _ \<Rightarrow> do { l \<leftarrow> get_link_length h1 u i;
                               set_link_length h1 x i (l - offset) });
        h3 \<leftarrow> set_forward h2 u i (Some x);
        set_link_length h3 u i (offset + 1)
      })"

text \<open>\<^verbatim>\<open>for (int i = lvl + 1; i <= level; i++) update[i]->link_length[i]++;\<close>\<close>

definition insert_bump :: "addr option list \<Rightarrow> nat \<Rightarrow> 'a heap \<Rightarrow> 'a heap option" where
  "insert_bump update i h =
     do {
       u \<leftarrow> update ! i;
       l \<leftarrow> get_link_length h u i;
       set_link_length h u i (l + 1)
     }"

text \<open>
  \<open>insert(value, obj_ptr)\<close>. Two results of the environment are parameters: \<open>lvl\<close>, the
  level drawn by \<open>random_level(MAX_LEVEL, P)\<close>, and \<open>a\<close>, the address \<open>new\<close> returns
  for the new entry (an address at which no live entry is).
\<close>

definition ObjectStore_insert ::
  "'a ObjectStore \<Rightarrow> object_id \<Rightarrow> 'a option \<Rightarrow> nat \<Rightarrow> addr \<Rightarrow> 'a ObjectStore option" where
  "ObjectStore_insert s v p lvl a =
     do {
       (x, update, spl, sk) \<leftarrow>
          for_each (down_from (level s)) (insert_search (heap s) v)
            (header s, replicate (MAX_LEVEL + 1) None, replicate (MAX_LEVEL + 1) 0, 0);
       x0 \<leftarrow> get_forward (heap s) x 0;
       found \<leftarrow> (case x0 of None \<Rightarrow> Some False
                 | Some y \<Rightarrow> map_option (\<lambda>e. entry_value e = v) (heap s y));
       if \<not> found then do {
         let n = num_entries s + 1;
         (h1, update1) \<leftarrow>
            (if lvl > level s
             then for_each [level s + 1..<lvl + 1] (insert_raise (header s) n) (heap s, update)
             else Some (heap s, update));
         let level1 = (if lvl > level s then lvl else level s);
         let h2 = h1(a \<mapsto> Entry_new lvl v p);
         h3 \<leftarrow> for_each [0..<lvl + 1] (insert_link update1 spl sk n a) h2;
         h4 \<leftarrow> for_each [lvl + 1..<level1 + 1] (insert_bump update1) h3;
         Some (s\<lparr>heap := h4, level := level1, num_entries := n\<rparr>)
       } else do {
         y \<leftarrow> x0;
         e \<leftarrow> heap s y;
         Some (s\<lparr>heap := (heap s)(y \<mapsto> e\<lparr>obj_ptr := p\<rparr>)\<rparr>)
       }
     }"

text \<open>The search loop of \<open>erase\<close> records \<open>update[i]\<close> at every level.\<close>

definition erase_search ::
  "'a heap \<Rightarrow> object_id \<Rightarrow> nat \<Rightarrow> addr \<times> addr option list \<Rightarrow> (addr \<times> addr option list) option" where
  "erase_search h v i st =
     (case st of (x, update) \<Rightarrow>
       (case advance h i v x of
          None \<Rightarrow> None
        | Some x' \<Rightarrow> Some (x', update[i := Some x'])))"

text \<open>The body of the loop \<open>for (int i = 0; i <= level; i++)\<close> that unlinks \<open>x\<close>.\<close>

definition erase_unlink :: "addr option list \<Rightarrow> addr \<Rightarrow> nat \<Rightarrow> 'a heap \<Rightarrow> 'a heap option" where
  "erase_unlink update x i h =
     do {
       u \<leftarrow> update ! i;
       f \<leftarrow> get_forward h u i;
       if f \<noteq> Some x then do {
         l \<leftarrow> get_link_length h u i;
         set_link_length h u i (l - 1)
       } else do {
         fx \<leftarrow> get_forward h x i;
         h1 \<leftarrow> set_forward h u i fx;
         l \<leftarrow> get_link_length h1 u i;
         lx \<leftarrow> get_link_length h1 x i;
         set_link_length h1 u i (l + (lx - 1))
       }
     }"

text \<open>\<^verbatim>\<open>while (level > 0 && header->forward[level] == NULL) level--;\<close>\<close>

fun lower_level :: "'a heap \<Rightarrow> addr \<Rightarrow> nat \<Rightarrow> nat option" where
  "lower_level h hdr 0 = Some 0"
| "lower_level h hdr (Suc l) =
     (case get_forward h hdr (Suc l) of
        None \<Rightarrow> None
      | Some None \<Rightarrow> lower_level h hdr l
      | Some (Some y) \<Rightarrow> Some (Suc l))"

definition ObjectStore_erase :: "'a ObjectStore \<Rightarrow> object_id \<Rightarrow> 'a ObjectStore option" where
  "ObjectStore_erase s v =
     do {
       (x, update) \<leftarrow>
          for_each (down_from (level s)) (erase_search (heap s) v)
            (header s, replicate (MAX_LEVEL + 1) None);
       x0 \<leftarrow> get_forward (heap s) x 0;
       (case x0 of
          None \<Rightarrow> Some s
        | Some y \<Rightarrow> do {
            e \<leftarrow> heap s y;
            if entry_value e = v then do {
              h1 \<leftarrow> for_each [0..<level s + 1] (erase_unlink update y) (heap s);
              let h2 = h1(y := None);
              l \<leftarrow> lower_level h2 (header s) (level s);
              Some (s\<lparr>heap := h2, level := l, num_entries := num_entries s - 1\<rparr>)
            } else Some s
          })
     }"

text \<open>
  The iterator: \<open>begin()\<close> is \<open>header->forward[0]\<close>, \<open>operator++\<close> follows
  \<open>forward[0]\<close>, \<open>end()\<close> is \<open>NULL\<close>. \<open>iterate\<close> runs an iterator up to \<open>end()\<close> and
  collects, for every entry it stands on, the entry's key together with the handle that
  \<open>operator*\<close> returns there.
\<close>

partial_function (option) iterate ::
  "'a heap \<Rightarrow> addr option \<Rightarrow> (object_id \<times> 'a option) list option" where
  "iterate h current =
     (case current of
        None \<Rightarrow> Some []
      | Some x \<Rightarrow>
         (case h x of
            None \<Rightarrow> None
          | Some e \<Rightarrow>
             (case get_forward h x 0 of
                None \<Rightarrow> None
              | Some nxt \<Rightarrow>
                  Option.bind (iterate h nxt) (\<lambda>rest. Some ((entry_value e, obj_ptr e) # rest)))))"

declare iterate.simps [code]

definition ObjectStore_begin :: "'a ObjectStore \<Rightarrow> addr option option" where
  "ObjectStore_begin s = get_forward (heap s) (header s) 0"

definition ObjectStore_iteration :: "'a ObjectStore \<Rightarrow> (object_id \<times> 'a option) list option" where
  "ObjectStore_iteration s =
     (case ObjectStore_begin s of None \<Rightarrow> None | Some b \<Rightarrow> iterate (heap s) b)"

section \<open>MLNetwork\<close>

text \<open>
  The entity classes \<^verbatim>\<open>actor\<close>, \<^verbatim>\<open>layer\<close>, \<^verbatim>\<open>node\<close> and \<^verbatim>\<open>edge\<close> of the header. Their
  members \<open>id\<close> and \<open>name\<close> carry the class name as a prefix here. Entities are shared
  through \<open>std::shared_ptr\<close> and never modified after construction, so a pointer to an
  entity is represented by the entity.
\<close>

record actor =
  actor_id :: object_id
  actor_name :: string

record layer =
  layer_id :: object_id
  layer_name :: string

record node =
  node_id :: object_id
  node_name :: string
  node_actor :: actor
  node_layer :: layer

record edge =
  edge_id :: object_id
  edge_v1 :: node
  edge_v2 :: node
  edge_directed :: bool

text \<open>\<^verbatim>\<open>const bool DEFAULT_EDGE_DIRECTIONALITY = false; // undirected edges by default\<close>\<close>

definition DEFAULT_EDGE_DIRECTIONALITY :: bool where
  "DEFAULT_EDGE_DIRECTIONALITY = False"

text \<open>
  The private members of \<^verbatim>\<open>class MLNetwork\<close>, in the order of the header. An index of
  type \<open>ObjectStore<T>\<close> is represented by the finite map from keys to handles that it
  holds, and so is a \<open>std::map\<close>.
\<close>

record MLNetwork =
  mlnet_name :: string
  max_node_id :: object_id
  max_edge_id :: object_id
  max_actor_id :: object_id
  max_layer_id :: object_id
  edge_directionality :: "(object_id, (object_id, bool) fmap) fmap"
  layers_by_id :: "(object_id, layer) fmap"
  layers_by_name :: "(string, layer) fmap"
  actors_by_id :: "(object_id, actor) fmap"
  actors_by_name :: "(string, actor) fmap"
  nodes_by_id :: "(object_id, node) fmap"
  nodes_by_layer_and_id :: "(object_id, (object_id, node) fmap) fmap"
  nodes_by_actor_and_id :: "(object_id, (object_id, node) fmap) fmap"
  nodes_by_layer_and_name :: "(object_id, (string, node) fmap) fmap"
  edges_by_id :: "(object_id, edge) fmap"
  edges_by_layers_and_id :: "(object_id, (object_id, (object_id, edge) fmap) fmap) fmap"
  edges_by_nodes :: "(object_id, (object_id, edge) fmap) fmap"
  neighbors_out :: "(object_id, (object_id, node) fmap) fmap"
  neighbors_in :: "(object_id, (object_id, node) fmap) fmap"
  neighbors_all :: "(object_id, (object_id, node) fmap) fmap"
  actor_attributes :: AttributeStore
  layer_attributes :: AttributeStore
  node_attributes :: "(object_id, AttributeStore) fmap"
  edge_attributes :: "(object_id, (object_id, AttributeStore) fmap) fmap"

text \<open>Reading and writing \<open>m[k1][k2]\<close> in a map of maps; writing creates the inner map
  when it is missing, as \<open>operator[]\<close> does.\<close>

definition lookup2 :: "('a, ('b, 'v) fmap) fmap \<Rightarrow> 'a \<Rightarrow> 'b \<Rightarrow> 'v option" where
  "lookup2 m k1 k2 = (case fmlookup m k1 of None \<Rightarrow> None | Some m1 \<Rightarrow> fmlookup m1 k2)"

definition update2 :: "('a, ('b, 'v) fmap) fmap \<Rightarrow> 'a \<Rightarrow> 'b \<Rightarrow> 'v \<Rightarrow> ('a, ('b, 'v) fmap) fmap" where
  "update2 m k1 k2 v =
     fmupd k1 (fmupd k2 v (case fmlookup m k1 of None \<Rightarrow> fmempty | Some m1 \<Rightarrow> m1)) m"

text \<open>Removing from an index every entry whose handle satisfies \<open>P\<close>.\<close>

definition drop_where :: "('v \<Rightarrow> bool) \<Rightarrow> ('k, 'v) fmap \<Rightarrow> ('k, 'v) fmap" where
  "drop_where P m = fmfilter (\<lambda>k. case fmlookup m k of None \<Rightarrow> False | Some v \<Rightarrow> \<not> P v) m"

text \<open>
  Modelled from the spec: \<open>remove(id)\<close> of the AttributeStore for all ids of a
  set at once, as a cascading erase calls it once for each erased entity.
\<close>

definition AttributeStore_remove_all :: "AttributeStore \<Rightarrow> (object_id \<Rightarrow> bool) \<Rightarrow> AttributeStore" where
  "AttributeStore_remove_all s R =
     s\<lparr>string_attribute :=
         (\<lambda>n. map_option (\<lambda>m k. if R k then None else m k) (string_attribute s n)),
       numeric_attribute :=
         (\<lambda>n. map_option (\<lambda>m k. if R k then None else m k) (numeric_attribute s n))\<rparr>"

text \<open>
  Modelled from the spec: the constructor and the member functions of \<open>MLNetwork\<close>
  are declared in the header, but their bodies (\<^verbatim>\<open>mlnetwork.cpp\<close>) are not part of the
  sources. The definitions below follow section 4.3 of the specification and the
  documentation comments of the declarations. A member function that can throw returns
  its result or the exception, together with the network after the call. The
  specification does not fix the first identifier handed out: the counters start at
  \<open>0\<close> and an \<open>add\<close> assigns the counter's successor.
\<close>

definition MLNetwork_create :: "string \<Rightarrow> MLNetwork" where
  "MLNetwork_create name =
     \<lparr>mlnet_name = name, max_node_id = 0, max_edge_id = 0, max_actor_id = 0, max_layer_id = 0,
      edge_directionality = fmempty, layers_by_id = fmempty, layers_by_name = fmempty,
      actors_by_id = fmempty, actors_by_name = fmempty, nodes_by_id = fmempty,
      nodes_by_layer_and_id = fmempty, nodes_by_actor_and_id = fmempty,
      nodes_by_layer_and_name = fmempty, edges_by_id = fmempty,
      edges_by_layers_and_id = fmempty, edges_by_nodes = fmempty, neighbors_out = fmempty,
      neighbors_in = fmempty, neighbors_all = fmempty,
      actor_attributes = AttributeStore_new, layer_attributes = AttributeStore_new,
      node_attributes = fmempty, edge_attributes = fmempty\<rparr>"

text \<open>
  Modelled from the spec: the lookups \<open>get_actor\<close>, \<open>get_layer\<close>, \<open>get_node\<close> and
  \<open>get_edge\<close> return the entity or null, never an exception, so they double as
  existence checks.
\<close>

definition get_actor :: "MLNetwork \<Rightarrow> object_id \<Rightarrow> actor option" where
  "get_actor net i = fmlookup (actors_by_id net) i"

definition get_actor_by_name :: "MLNetwork \<Rightarrow> string \<Rightarrow> actor option" where
  "get_actor_by_name net name = fmlookup (actors_by_name net) name"

definition get_layer :: "MLNetwork \<Rightarrow> object_id \<Rightarrow> layer option" where
  "get_layer net i = fmlookup (layers_by_id net) i"

definition get_layer_by_name :: "MLNetwork \<Rightarrow> string \<Rightarrow> layer option" where
  "get_layer_by_name net name = fmlookup (layers_by_name net) name"

definition get_node :: "MLNetwork \<Rightarrow> object_id \<Rightarrow> node option" where
  "get_node net i = fmlookup (nodes_by_id net) i"

definition get_edge :: "MLNetwork \<Rightarrow> node \<Rightarrow> node \<Rightarrow> edge option" where
  "get_edge net node1 node2 = lookup2 (edges_by_nodes net) (node_id node1) (node_id node2)"

text \<open>
  Modelled from the spec: \<open>set_directed\<close> and \<open>is_directed\<close> store and read a policy
  for each ordered pair of layers, which defaults to the global default when unset.
\<close>

definition set_directed :: "MLNetwork \<Rightarrow> layer \<Rightarrow> layer \<Rightarrow> bool \<Rightarrow> MLNetwork" where
  "set_directed net layer1 layer2 directed =
     net\<lparr>edge_directionality :=
           update2 (edge_directionality net) (layer_id layer1) (layer_id layer2) directed\<rparr>"

definition is_directed :: "MLNetwork \<Rightarrow> layer \<Rightarrow> layer \<Rightarrow> bool" where
  "is_directed net layer1 layer2 =
     (case lookup2 (edge_directionality net) (layer_id layer1) (layer_id layer2) of
        None \<Rightarrow> DEFAULT_EDGE_DIRECTIONALITY
      | Some d \<Rightarrow> d)"

text \<open>
  Modelled from the spec: \<open>add_actor(name)\<close> allocates a fresh actor id and fails with
  a duplicate error if the name collides with an existing actor name.
\<close>

definition add_actor :: "MLNetwork \<Rightarrow> string \<Rightarrow> (error + actor) \<times> MLNetwork" where
  "add_actor net name =
     (if get_actor_by_name net name \<noteq> None then (Inl DuplicateElementException, net)
      else
        (let aid = max_actor_id net + 1;
             a = \<lparr>actor_id = aid, actor_name = name\<rparr>
         in (Inr a, net\<lparr>max_actor_id := aid,
                        actors_by_id := fmupd aid a (actors_by_id net),
                        actors_by_name := fmupd name a (actors_by_name net)\<rparr>)))"

text \<open>
  Modelled from the spec: \<open>add_layer(name, directed)\<close> allocates a fresh layer id and
  fails with a duplicate error in the same way; \<open>directed\<close> becomes the directionality
  of the layer's intra-layer edges.
\<close>

definition add_layer :: "MLNetwork \<Rightarrow> string \<Rightarrow> bool \<Rightarrow> (error + layer) \<times> MLNetwork" where
  "add_layer net name directed =
     (if get_layer_by_name net name \<noteq> None then (Inl DuplicateElementException, net)
      else
        (let lid = max_layer_id net + 1;
             l = \<lparr>layer_id = lid, layer_name = name\<rparr>
         in (Inr l, net\<lparr>max_layer_id := lid,
                        edge_directionality := update2 (edge_directionality net) lid lid directed,
                        layers_by_id := fmupd lid l (layers_by_id net),
                        layers_by_name := fmupd name l (layers_by_name net)\<rparr>)))"

text \<open>
  Modelled from the spec: \<open>add_node(name, actor, layer)\<close> fails with NotFound if the
  actor or the layer is not a live member of the network, and otherwise registers the
  new node into the global node index, the per-layer and per-actor node indexes and the
  per-layer name index.
\<close>

definition add_node :: "MLNetwork \<Rightarrow> string \<Rightarrow> actor \<Rightarrow> layer \<Rightarrow> (error + node) \<times> MLNetwork" where
  "add_node net name a l =
     (if get_actor net (actor_id a) \<noteq> Some a \<or> get_layer net (layer_id l) \<noteq> Some l
      then (Inl ElementNotFoundException, net)
      else
        (let nid = max_node_id net + 1;
             n = \<lparr>node_id = nid, node_name = name, node_actor = a, node_layer = l\<rparr>
         in (Inr n, net\<lparr>max_node_id := nid,
                        nodes_by_id := fmupd nid n (nodes_by_id net),
                        nodes_by_layer_and_id :=
                          update2 (nodes_by_layer_and_id net) (layer_id l) nid n,
                        nodes_by_actor_and_id :=
                          update2 (nodes_by_actor_and_id net) (actor_id a) nid n,
                        nodes_by_layer_and_name :=
                          update2 (nodes_by_layer_and_name net) (layer_id l) name n\<rparr>)))"

text \<open>
  Modelled from the spec: \<open>add_edge(node1, node2)\<close> fails with NotFound if either node
  is absent; the directionality is resolved through \<open>is_directed\<close> on the layers of the
  two nodes; it fails with a duplicate error if an edge with the same effective
  endpoint pair exists, that is an edge registered for the ordered pair, or for the
  reversed pair as well when the new edge would be undirected. Otherwise the new edge
  is registered into the global edge index, the index of its layer pair, the node-pair
  index and the adjacency stores of both endpoints; an undirected edge is registered
  for both orders of its endpoints, and both endpoints receive each other in both
  directions.
\<close>

definition add_edge :: "MLNetwork \<Rightarrow> node \<Rightarrow> node \<Rightarrow> (error + edge) \<times> MLNetwork" where
  "add_edge net node1 node2 =
     (if get_node net (node_id node1) \<noteq> Some node1 \<or> get_node net (node_id node2) \<noteq> Some node2
      then (Inl ElementNotFoundException, net)
      else
        (let directed = is_directed net (node_layer node1) (node_layer node2) in
         if get_edge net node1 node2 \<noteq> None \<or> (\<not> directed \<and> get_edge net node2 node1 \<noteq> None)
         then (Inl DuplicateElementException, net)
         else
           (let eid = max_edge_id net + 1;
                e = \<lparr>edge_id = eid, edge_v1 = node1, edge_v2 = node2, edge_directed = directed\<rparr>;
                i1 = node_id node1; i2 = node_id node2;
                l1 = layer_id (node_layer node1); l2 = layer_id (node_layer node2);
                ix = (case lookup2 (edges_by_layers_and_id net) l1 l2 of
                        None \<Rightarrow> fmempty | Some m \<Rightarrow> m);
                by_nodes = update2 (edges_by_nodes net) i1 i2 e;
                out = update2 (neighbors_out net) i1 i2 node2;
                inc = update2 (neighbors_in net) i2 i1 node1
            in (Inr e,
                net\<lparr>max_edge_id := eid,
                    edges_by_id := fmupd eid e (edges_by_id net),
                    edges_by_layers_and_id :=
                      update2 (edges_by_layers_and_id net) l1 l2 (fmupd eid e ix),
                    edges_by_nodes := (if directed then by_nodes else update2 by_nodes i2 i1 e),
                    neighbors_out := (if directed then out else update2 out i2 i1 node1),
                    neighbors_in := (if directed then inc else update2 inc i1 i2 node2),
                    neighbors_all :=
                      update2 (update2 (neighbors_all net) i1 i2 node2) i2 i1 node1\<rparr>))))"

text \<open>
  Modelled from the spec: erasing edges. \<open>erase(edge)\<close> removes the edge from the
  global, per-layer-pair and node-pair indexes, updates the adjacency stores of both
  endpoints and removes its entry from the edge-attribute stores. The definition is
  written for all edges that satisfy a predicate, since the erasure of a node cascades
  to all edges incident to it; entities are compared by id, as \<open>operator==\<close> of the
  entity classes does. After the removal two nodes stay neighbours in a direction
  exactly if an edge registered in the node-pair index still joins them in that
  direction.
\<close>

definition erase_edges :: "MLNetwork \<Rightarrow> (edge \<Rightarrow> bool) \<Rightarrow> MLNetwork" where
  "erase_edges net P =
     (let by_nodes = fmmap (drop_where P) (edges_by_nodes net);
          erased = (\<lambda>i. case fmlookup (edges_by_id net) i of None \<Rightarrow> False | Some e \<Rightarrow> P e)
      in net\<lparr>edges_by_id := drop_where P (edges_by_id net),
             edges_by_layers_and_id := fmmap (fmmap (drop_where P)) (edges_by_layers_and_id net),
             edges_by_nodes := by_nodes,
             neighbors_out :=
               fmmap_keys (\<lambda>u. fmfilter (\<lambda>w. lookup2 by_nodes u w \<noteq> None)) (neighbors_out net),
             neighbors_in :=
               fmmap_keys (\<lambda>u. fmfilter (\<lambda>w. lookup2 by_nodes w u \<noteq> None)) (neighbors_in net),
             neighbors_all :=
               fmmap_keys (\<lambda>u. fmfilter (\<lambda>w. lookup2 by_nodes u w \<noteq> None \<or>
                                              lookup2 by_nodes w u \<noteq> None)) (neighbors_all net),
             edge_attributes :=
               fmmap (fmmap (\<lambda>s. AttributeStore_remove_all s erased)) (edge_attributes net)\<rparr>)"

definition erase_edge :: "MLNetwork \<Rightarrow> edge \<Rightarrow> MLNetwork" where
  "erase_edge net e = erase_edges net (\<lambda>e'. edge_id e' = edge_id e)"

text \<open>
  Modelled from the spec: erasing nodes. \<open>erase(node)\<close> first erases every edge
  incident to the node, incoming or outgoing, then removes the node from every index
  it participates in (global, per-layer, per-actor, per-name), from the adjacency
  stores, and its entry from the node-attribute stores. Again the definition is
  written for all nodes that satisfy a predicate, since the erasure of an actor
  cascades to all its nodes.
\<close>

definition erase_nodes :: "MLNetwork \<Rightarrow> (node \<Rightarrow> bool) \<Rightarrow> MLNetwork" where
  "erase_nodes net P =
     (let net1 = erase_edges net (\<lambda>e. P (edge_v1 e) \<or> P (edge_v2 e));
          erased = (\<lambda>i. case fmlookup (nodes_by_id net) i of None \<Rightarrow> False | Some n \<Rightarrow> P n);
          adjacency = (\<lambda>m. fmmap (drop_where P) (fmfilter (\<lambda>i. \<not> erased i) m))
      in net1\<lparr>nodes_by_id := drop_where P (nodes_by_id net1),
              nodes_by_layer_and_id := fmmap (drop_where P) (nodes_by_layer_and_id net1),
              nodes_by_actor_and_id := fmmap (drop_where P) (nodes_by_actor_and_id net1),
              nodes_by_layer_and_name := fmmap (drop_where P) (nodes_by_layer_and_name net1),
              neighbors_out := adjacency (neighbors_out net1),
              neighbors_in := adjacency (neighbors_in net1),
              neighbors_all := adjacency (neighbors_all net1),
              node_attributes :=
                fmmap (\<lambda>s. AttributeStore_remove_all s erased) (node_attributes net1)\<rparr>)"

definition erase_node :: "MLNetwork \<Rightarrow> node \<Rightarrow> MLNetwork" where
  "erase_node net n = erase_nodes net (\<lambda>n'. node_id n' = node_id n)"

text \<open>
  Modelled from the spec: erasing an actor. The header declares no such member (its
  comment calls \<open>deleteActor\<close> not necessary), the test calls \<open>erase(a1)\<close>, and the
  specification requires that the deletion of an actor cascades to all its nodes. The
  nodes owned by the actor are erased as \<open>erase(node)\<close> does, then the actor is removed
  from the index by id and the index by name, and its entries from the per-actor node
  index and the actor-attribute store.
\<close>

definition erase_actor :: "MLNetwork \<Rightarrow> actor \<Rightarrow> MLNetwork" where
  "erase_actor net a =
     (let net1 = erase_nodes net (\<lambda>n. actor_id (node_actor n) = actor_id a)
      in net1\<lparr>actors_by_id := fmdrop (actor_id a) (actors_by_id net1),
              actors_by_name := fmdrop (actor_name a) (actors_by_name net1),
              nodes_by_actor_and_id := fmdrop (actor_id a) (nodes_by_actor_and_id net1),
              actor_attributes := AttributeStore_remove (actor_attributes net1) (actor_id a)\<rparr>)"

text \<open>
  The networks that the interface can build: a new network, then any sequence of
  calls. An actor is erased only while it is a member of the network.
\<close>

inductive MLNetwork_reach :: "MLNetwork \<Rightarrow> bool" where
  reach_create: "MLNetwork_reach (MLNetwork_create name)"
| reach_add_actor: "MLNetwork_reach net \<Longrightarrow> MLNetwork_reach (snd (add_actor net name))"
| reach_add_layer: "MLNetwork_reach net \<Longrightarrow> MLNetwork_reach (snd (add_layer net name directed))"
| reach_set_directed: "MLNetwork_reach net \<Longrightarrow> MLNetwork_reach (set_directed net l1 l2 directed)"
| reach_add_node: "MLNetwork_reach net \<Longrightarrow> MLNetwork_reach (snd (add_node net name a l))"
| reach_add_edge: "MLNetwork_reach net \<Longrightarrow> MLNetwork_reach (snd (add_edge net n1 n2))"
| reach_erase_edge: "MLNetwork_reach net \<Longrightarrow> MLNetwork_reach (erase_edge net e)"
| reach_erase_node: "MLNetwork_reach net \<Longrightarrow> MLNetwork_reach (erase_node net n)"
| reach_erase_actor:
    "MLNetwork_reach net \<Longrightarrow> get_actor net (actor_id a) = Some a \<Longrightarrow>
     MLNetwork_reach (erase_actor net a)"

text \<open>
  What the indexes of such a network agree on: an actor or a layer registered by id
  carries that id and is registered under its name; a node registered by id carries
  that id, which the counter has reached; the endpoints of a registered edge are
  registered nodes, and the edge is registered for its pair of endpoints.
\<close>

definition actors_inv :: "MLNetwork \<Rightarrow> bool" where
  "actors_inv net \<longleftrightarrow>
     (\<forall>i a. fmlookup (actors_by_id net) i = Some a \<longrightarrow>
        actor_id a = i \<and> fmlookup (actors_by_name net) (actor_name a) = Some a)"

definition layers_inv :: "MLNetwork \<Rightarrow> bool" where
  "layers_inv net \<longleftrightarrow>
     (\<forall>i l. fmlookup (layers_by_id net) i = Some l \<longrightarrow>
        layer_id l = i \<and> fmlookup (layers_by_name net) (layer_name l) = Some l)"

definition nodes_inv :: "MLNetwork \<Rightarrow> bool" where
  "nodes_inv net \<longleftrightarrow>
     (\<forall>i n. fmlookup (nodes_by_id net) i = Some n \<longrightarrow> node_id n = i \<and> i \<le> max_node_id net)"

definition edges_inv :: "MLNetwork \<Rightarrow> bool" where
  "edges_inv net \<longleftrightarrow>
     (\<forall>i e. fmlookup (edges_by_id net) i = Some e \<longrightarrow>
        fmlookup (nodes_by_id net) (node_id (edge_v1 e)) = Some (edge_v1 e) \<and>
        fmlookup (nodes_by_id net) (node_id (edge_v2 e)) = Some (edge_v2 e) \<and>
        lookup2 (edges_by_nodes net) (node_id (edge_v1 e)) (node_id (edge_v2 e)) = Some e)"

definition MLNetwork_inv :: "MLNetwork \<Rightarrow> bool" where
  "MLNetwork_inv net \<longleftrightarrow> actors_inv net \<and> layers_inv net \<and> nodes_inv net \<and> edges_inv net"

text \<open>The edges and the nodes that some index of the network refers to.\<close>

definition index_edges :: "MLNetwork \<Rightarrow> edge set" where
  "index_edges net =
     {e. \<exists>i. fmlookup (edges_by_id net) i = Some e} \<union>
     {e. \<exists>l1 l2 m i. lookup2 (edges_by_layers_and_id net) l1 l2 = Some m \<and> fmlookup m i = Some e} \<union>
     {e. \<exists>i1 i2. lookup2 (edges_by_nodes net) i1 i2 = Some e}"

definition index_nodes :: "MLNetwork \<Rightarrow> node set" where
  "index_nodes net =
     {n. \<exists>i. fmlookup (nodes_by_id net) i = Some n} \<union>
     {n. \<exists>l i. lookup2 (nodes_by_layer_and_id net) l i = Some n} \<union>
     {n. \<exists>a i. lookup2 (nodes_by_actor_and_id net) a i = Some n} \<union>
     {n. \<exists>l name. lookup2 (nodes_by_layer_and_name net) l name = Some n} \<union>
     {n. \<exists>u w. lookup2 (neighbors_out net) u w = Some n} \<union>
     {n. \<exists>u w. lookup2 (neighbors_in net) u w = Some n} \<union>
     {n. \<exists>u w. lookup2 (neighbors_all net) u w = Some n} \<union>
     edge_v1 ` index_edges net \<union> edge_v2 ` index_edges net"

definition owned_by :: "actor \<Rightarrow> node \<Rightarrow> bool" where
  "owned_by a n \<longleftrightarrow> actor_id (node_actor n) = actor_id a"

text \<open>
  A small network in the manner of the test: two actors, an undirected layer, one
  node for each actor in that layer, and an edge between the two nodes.
\<close>

definition ex_a1 :: actor where
  "ex_a1 = \<lparr>actor_id = 1, actor_name = ''a1''\<rparr>"

definition ex_a2 :: actor where
  "ex_a2 = \<lparr>actor_id = 2, actor_name = ''a2''\<rparr>"

definition ex_l1 :: layer where
  "ex_l1 = \<lparr>layer_id = 1, layer_name = ''l1''\<rparr>"

definition ex_n1 :: node where
  "ex_n1 = \<lparr>node_id = 1, node_name = ''n1'', node_actor = ex_a1, node_layer = ex_l1\<rparr>"

definition ex_n2 :: node where
  "ex_n2 = \<lparr>node_id = 2, node_name = ''n2'', node_actor = ex_a2, node_layer = ex_l1\<rparr>"

definition ex_e1 :: edge where
  "ex_e1 = \<lparr>edge_id = 1, edge_v1 = ex_n1, edge_v2 = ex_n2, edge_directed = False\<rparr>"

definition ex_actors :: MLNetwork where
  "ex_actors = snd (add_actor (snd (add_actor (MLNetwork_create ''net'') ''a1'')) ''a2'')"

definition ex_layers :: MLNetwork where
  "ex_layers = snd (add_layer ex_actors ''l1'' False)"

definition ex_nodes :: MLNetwork where
  "ex_nodes = snd (add_node (snd (add_node ex_layers ''n1'' ex_a1 ex_l1)) ''n2'' ex_a2 ex_l1)"

definition example_net :: MLNetwork where
  "example_net = snd (add_edge ex_nodes ex_n1 ex_n2)"

section \<open>The sorted list of entries behind a store\<close>

text \<open>
  The properties of the skip list are stated against the list of its entries in key
  order. An entry is described by its address, its key, its handle and the index of its
  topmost slot (the \<open>level\<close> given to its constructor). The key type \<open>object_id\<close> and the
  counters (\<open>int\<close> link lengths, \<open>long\<close> positions and \<open>num_entries\<close>) are mathematical
  integers here: the counters never exceed the number of entries plus one, so the
  machine arithmetic of the source agrees with it for every store of fewer than
  \<open>2^31 - 1\<close> entries.
\<close>

record 'a snode =
  n_addr :: addr
  n_key :: object_id
  n_obj :: "'a option"
  n_lvl :: nat

text \<open>The first entry of a list that is linked at level \<open>i\<close>, and the number of
  level-0 steps that lead to it (to the position behind the last entry if there is
  none).\<close>

fun first_at :: "nat \<Rightarrow> 'a snode list \<Rightarrow> addr option" where
  "first_at i [] = None"
| "first_at i (n # ns) = (if i \<le> n_lvl n then Some (n_addr n) else first_at i ns)"

fun span_at :: "nat \<Rightarrow> 'a snode list \<Rightarrow> int" where
  "span_at i [] = 1"
| "span_at i (n # ns) = (if i \<le> n_lvl n then 1 else 1 + span_at i ns)"

text \<open>
  An entry is laid out correctly in front of the entries \<open>rest\<close> that follow it: its
  fields are those of the description, both vectors have \<open>n_lvl + 1\<close> slots, each forward
  pointer designates the next entry linked at that level, and below the bound \<open>lv\<close>
  each link length is the distance to that entry.
\<close>

definition node_ok :: "'a heap \<Rightarrow> nat \<Rightarrow> 'a snode \<Rightarrow> 'a snode list \<Rightarrow> bool" where
  "node_ok h lv nd rest \<longleftrightarrow>
     (\<exists>e. h (n_addr nd) = Some e \<and> entry_value e = n_key nd \<and> obj_ptr e = n_obj nd \<and>
          length (forward e) = n_lvl nd + 1 \<and> length (link_length e) = n_lvl nd + 1 \<and>
          (\<forall>i\<le>n_lvl nd. forward e ! i = first_at i rest \<and>
                 (i < lv \<longrightarrow> link_length e ! i = span_at i rest)))"

fun chain_ok :: "'a heap \<Rightarrow> nat \<Rightarrow> 'a snode list \<Rightarrow> bool" where
  "chain_ok h lv [] = True"
| "chain_ok h lv (nd # rest) = (node_ok h lv nd rest \<and> chain_ok h lv rest)"

text \<open>The sentinel \<open>header\<close>, built by \<open>new Entry<T>(MAX_LEVEL, 0, NULL)\<close>.\<close>

definition hnode :: "addr \<Rightarrow> 'a snode" where
  "hnode a = \<lparr>n_addr = a, n_key = 0, n_obj = None, n_lvl = MAX_LEVEL\<rparr>"

text \<open>
  The constructor leaves every link length of the header at \<open>0\<close>, and nothing reads one
  before the first \<open>insert\<close> has written it. The flag \<open>fr\<close> marks a store in that state:
  no link length is constrained there. Otherwise the link lengths of the levels
  \<open>0 .. level\<close> are.
\<close>

definition link_bound :: "bool \<Rightarrow> 'a ObjectStore \<Rightarrow> nat" where
  "link_bound fr s = (if fr then 0 else level s + 1)"

definition store_inv :: "bool \<Rightarrow> 'a ObjectStore \<Rightarrow> 'a snode list \<Rightarrow> bool" where
  "store_inv fr s ns \<longleftrightarrow>
     chain_ok (heap s) (link_bound fr s) (hnode (header s) # ns) \<and>
     (fr \<longrightarrow> ns = [] \<and> level s = 0) \<and>
     distinct (map n_addr (hnode (header s) # ns)) \<and>
     sorted_wrt (<) (map n_key ns) \<and>
     (\<forall>nd\<in>set ns. n_lvl nd \<le> level s) \<and>
     level s \<le> MAX_LEVEL \<and>
     num_entries s = int (length ns)"

text \<open>
  Where a search stops: the last entry of a list linked at level \<open>i\<close> (the start \<open>a\<close>
  if there is none), the number of positions up to it, and the split of a list at its
  last entry of level at least \<open>j\<close>.
\<close>

fun last_at :: "nat \<Rightarrow> addr \<Rightarrow> 'a snode list \<Rightarrow> addr" where
  "last_at i a [] = a"
| "last_at i a (n # ns) = last_at i (if i \<le> n_lvl n then n_addr n else a) ns"

fun dist_at :: "nat \<Rightarrow> int \<Rightarrow> 'a snode list \<Rightarrow> int" where
  "dist_at i c [] = 0"
| "dist_at i c (n # ns) = (if i \<le> n_lvl n then c + 1 + dist_at i 0 ns else dist_at i (c + 1) ns)"

definition pre_at :: "nat \<Rightarrow> 'a snode list \<Rightarrow> 'a snode list" where
  "pre_at j ns = rev (dropWhile (\<lambda>n. n_lvl n < j) (rev ns))"

definition suf_at :: "nat \<Rightarrow> 'a snode list \<Rightarrow> 'a snode list" where
  "suf_at j ns = rev (takeWhile (\<lambda>n. n_lvl n < j) (rev ns))"

text \<open>The finite map from keys to handles that a list of entries stands for.\<close>

definition amap :: "'a snode list \<Rightarrow> (object_id \<rightharpoonup> 'a option)" where
  "amap ns = map_of (map (\<lambda>n. (n_key n, n_obj n)) ns)"

text \<open>What a write to one slot of one entry leaves alone: key, handle and the sizes of
  the two vectors.\<close>

definition meta :: "'a heap \<Rightarrow> addr \<Rightarrow> (object_id \<times> 'a option \<times> nat \<times> nat) option" where
  "meta h b = map_option (\<lambda>e. (entry_value e, obj_ptr e, length (forward e), length (link_length e))) (h b)"

text \<open>
  The stores that the public interface can build: a new store, then any sequence of
  \<open>insert\<close> and \<open>erase\<close>. Every \<open>insert\<close> draws a level of at most \<open>MAX_LEVEL\<close> and an
  address that holds no live entry. The second argument is the map from keys to
  handles that the calls describe, the third tells whether an \<open>insert\<close> has happened.
\<close>

inductive reach :: "'a ObjectStore \<Rightarrow> (object_id \<rightharpoonup> 'a option) \<Rightarrow> bool \<Rightarrow> bool" where
  reach_new: "reach (ObjectStore_new a) Map.empty False"
| reach_insert:
    "reach s m b \<Longrightarrow> lvl \<le> MAX_LEVEL \<Longrightarrow> a \<notin> dom (heap s) \<Longrightarrow>
     ObjectStore_insert s v p lvl a = Some s' \<Longrightarrow> reach s' (m(v \<mapsto> p)) True"
| reach_erase:
    "reach s m b \<Longrightarrow> ObjectStore_erase s v = Some s' \<Longrightarrow> reach s' (m(v := None)) b"





text \<open>
  Two concrete stores: the one that \<open>insert(5, h)\<close> with a handle \<open>h = 50\<close>, drawn level
  \<open>1\<close> and new address \<open>1\<close> builds from a new store with header at address \<open>0\<close>, and the
  one that \<open>insert(5, NULL)\<close> with drawn level \<open>0\<close> builds.
\<close>

definition example_store :: "nat ObjectStore" where
  "example_store =
     \<lparr>heap = [0 \<mapsto> \<lparr>entry_value = 0, obj_ptr = None,
                     forward = [Some 1, Some 1, None, None, None, None, None],
                     link_length = [1, 1, 0, 0, 0, 0, 0]\<rparr>,
              1 \<mapsto> \<lparr>entry_value = 5, obj_ptr = Some 50,
                     forward = [None, None], link_length = [1, 1]\<rparr>],
      header = 0, level = 1, num_entries = 1\<rparr>"

definition null_store :: "nat ObjectStore" where
  "null_store =
     \<lparr>heap = [0 \<mapsto> \<lparr>entry_value = 0, obj_ptr = None,
                     forward = [Some 1, None, None, None, None, None, None],
                     link_length = [1, 0, 0, 0, 0, 0, 0]\<rparr>,
              1 \<mapsto> \<lparr>entry_value = 5, obj_ptr = None,
                     forward = [None], link_length = [1]\<rparr>],
      header = 0, level = 0, num_entries = 1\<rparr>"

section \<open>The invariant of the skip list and its preservation\<close>

lemma pre_suf [simp]: "pre_at j ns @ suf_at j ns = ns"
  unfolding pre_at_def suf_at_def
  by (metis rev_append rev_rev_ident takeWhile_dropWhile_id)

lemma suf_at_low: "n \<in> set (suf_at j ns) \<Longrightarrow> n_lvl n < j"
  unfolding suf_at_def by (auto dest: set_takeWhileD)

lemma pre_at_last: "pre_at j ns \<noteq> [] \<Longrightarrow> j \<le> n_lvl (last (pre_at j ns))"
  unfolding pre_at_def
  by (metis (mono_tags, lifting) hd_dropWhile last_rev linorder_not_less rev_is_Nil_conv)

lemma pre_at_Nil [simp]: "pre_at j [] = []" by (simp add: pre_at_def)

lemma suf_at_Nil [simp]: "suf_at j [] = []" by (simp add: suf_at_def)

lemma pre_at_snoc: "pre_at j (ns @ [n]) = (if j \<le> n_lvl n then ns @ [n] else pre_at j ns)"
  by (simp add: pre_at_def)

lemma suf_at_snoc: "suf_at j (ns @ [n]) = (if j \<le> n_lvl n then [] else suf_at j ns @ [n])"
  by (simp add: suf_at_def)

lemma pre_at_Cons:
  "pre_at j (n # ns) = (if pre_at j ns = [] then (if j \<le> n_lvl n then [n] else []) else n # pre_at j ns)"
  by (auto simp: pre_at_def dropWhile_append dropWhile_eq_Nil_conv)

lemma pre_at_all_low: "(\<forall>n\<in>set ns. n_lvl n < j) \<Longrightarrow> pre_at j ns = []"
  by (induction ns rule: rev_induct) (auto simp: pre_at_snoc)

lemma pre_at_zero [simp]: "pre_at 0 ns = ns"
  by (simp add: pre_at_def)

lemma suf_at_zero [simp]: "suf_at 0 ns = []"
  by (cases "rev ns") (simp_all add: suf_at_def)

lemma pre_at_split: "pre_at i ns = pre_at (Suc i) ns @ pre_at i (suf_at (Suc i) ns)"
  by (induction ns rule: rev_induct) (auto simp: pre_at_snoc suf_at_snoc)

lemma pre_at_mono_split: "i \<le> j \<Longrightarrow> pre_at i ns = pre_at j ns @ pre_at i (suf_at j ns)"
  by (induction ns rule: rev_induct) (auto simp: pre_at_snoc suf_at_snoc)

lemma last_at_pre: "last_at i a r = (if pre_at i r = [] then a else n_addr (last (pre_at i r)))"
  by (induction r arbitrary: a) (auto simp: pre_at_Cons)

lemma dist_at_pre: "dist_at i c r = (if pre_at i r = [] then 0 else c + int (length (pre_at i r)))"
  by (induction r arbitrary: c) (auto simp: pre_at_Cons)


lemma first_at_append:
  "first_at i (xs @ ys) = (case first_at i xs of None \<Rightarrow> first_at i ys | Some a \<Rightarrow> Some a)"
  by (induction xs) auto

lemma span_at_append:
  "span_at i (xs @ ys) = (case first_at i xs of None \<Rightarrow> int (length xs) + span_at i ys | Some a \<Rightarrow> span_at i xs)"
  by (induction xs) (auto split: option.splits)

lemma first_at_None: "first_at i xs = None \<longleftrightarrow> (\<forall>n\<in>set xs. n_lvl n < i)"
  by (induction xs) auto

lemma first_at_Some: "first_at i xs = Some a \<Longrightarrow> \<exists>n\<in>set xs. n_addr n = a \<and> i \<le> n_lvl n"
  by (induction xs) (auto split: if_splits)

lemma chain_ok_append: "chain_ok h lv (xs @ ys) \<Longrightarrow> chain_ok h lv ys"
  by (induction xs) auto

lemma chain_ok_mid: "chain_ok h lv (xs @ nd # ys) \<Longrightarrow> node_ok h lv nd ys"
  by (induction xs) auto

lemma chain_ok_mem:
  "chain_ok h lv ns \<Longrightarrow> n \<in> set ns \<Longrightarrow> \<exists>e. h (n_addr n) = Some e \<and> entry_value e = n_key n \<and> obj_ptr e = n_obj n"
  by (induction ns) (auto simp: node_ok_def)

lemma node_ok_forward:
  "node_ok h lv nd rest \<Longrightarrow> i \<le> n_lvl nd \<Longrightarrow> get_forward h (n_addr nd) i = Some (first_at i rest)"
  by (auto simp: node_ok_def get_forward_def)

lemma node_ok_link:
  "node_ok h lv nd rest \<Longrightarrow> i \<le> n_lvl nd \<Longrightarrow> i < lv \<Longrightarrow>
   get_link_length h (n_addr nd) i = Some (span_at i rest)"
  by (auto simp: node_ok_def get_link_length_def)

lemma node_ok_entry:
  "node_ok h lv nd rest \<Longrightarrow> \<exists>e. h (n_addr nd) = Some e \<and> entry_value e = n_key nd \<and> obj_ptr e = n_obj nd"
  by (auto simp: node_ok_def)

lemma last_at_append: "last_at i a (xs @ ys) = last_at i (last_at i a xs) ys"
  by (induction xs arbitrary: a) auto

lemma last_at_low: "(\<forall>n\<in>set r. n_lvl n < j) \<Longrightarrow> last_at j a r = a"
  by (induction r arbitrary: a) auto

lemma last_at_step: "last_at i (last_at (Suc i) hdr lo) (suf_at (Suc i) lo) = last_at i hdr lo"
proof -
  have "last_at i hdr (pre_at (Suc i) lo) = last_at (Suc i) hdr lo"
  proof (cases "pre_at (Suc i) lo = []")
    case True
    then show ?thesis by (simp add: last_at_pre)
  next
    case False
    then have "Suc i \<le> n_lvl (last (pre_at (Suc i) lo))" by (rule pre_at_last)
    then have "pre_at i (pre_at (Suc i) lo) = pre_at (Suc i) lo"
      using False by (cases "pre_at (Suc i) lo" rule: rev_cases) (auto simp: pre_at_snoc)
    then show ?thesis using False by (simp add: last_at_pre)
  qed
  moreover have "last_at i hdr lo = last_at i (last_at i hdr (pre_at (Suc i) lo)) (suf_at (Suc i) lo)"
    by (metis last_at_append pre_suf)
  ultimately show ?thesis by simp
qed

lemma upd_node:
  assumes "chain_ok h lv (hnode hdr # lo @ hi)"
  shows "\<exists>nd. n_addr nd = last_at j hdr lo \<and> node_ok h lv nd (suf_at j lo @ hi) \<and>
          (nd = hnode hdr \<and> pre_at j lo = [] \<or> pre_at j lo \<noteq> [] \<and> nd = last (pre_at j lo) \<and> j \<le> n_lvl nd)"
proof (cases "pre_at j lo = []")
  case True
  then have "suf_at j lo = lo" by (metis pre_suf append_Nil)
  with assms True show ?thesis
    by (intro exI[of _ "hnode hdr"]) (simp add: last_at_pre hnode_def)
next
  case False
  then obtain p nd where p: "pre_at j lo = p @ [nd]" by (cases "pre_at j lo" rule: rev_cases) auto
  then have "hnode hdr # lo @ hi = (hnode hdr # p) @ nd # suf_at j lo @ hi"
    by (metis append_Cons append_Nil append_assoc pre_suf)
  with assms have "node_ok h lv nd (suf_at j lo @ hi)" by (metis chain_ok_mid)
  moreover have "j \<le> n_lvl nd" using pre_at_last[OF False] p by simp
  ultimately show ?thesis using p False by (intro exI[of _ nd]) (simp add: last_at_pre)
qed

lemma upd_forward:
  assumes "chain_ok h lv (hnode hdr # lo @ hi)" "i \<le> j" "i \<le> MAX_LEVEL"
  shows "get_forward h (last_at j hdr lo) i = Some (first_at i (suf_at j lo @ hi))"
proof -
  from upd_node[OF assms(1), of j] obtain nd where
    nd: "n_addr nd = last_at j hdr lo" "node_ok h lv nd (suf_at j lo @ hi)"
      "nd = hnode hdr \<or> j \<le> n_lvl nd" by blast
  then have "i \<le> n_lvl nd" using assms(2,3) by (auto simp: hnode_def)
  from node_ok_forward[OF nd(2) this] nd(1) show ?thesis by simp
qed

lemma upd_link:
  assumes "chain_ok h lv (hnode hdr # lo @ hi)" "i \<le> j" "i \<le> MAX_LEVEL" "i < lv"
  shows "get_link_length h (last_at j hdr lo) i = Some (span_at i (suf_at j lo @ hi))"
proof -
  from upd_node[OF assms(1), of j] obtain nd where
    nd: "n_addr nd = last_at j hdr lo" "node_ok h lv nd (suf_at j lo @ hi)"
      "nd = hnode hdr \<or> j \<le> n_lvl nd" by blast
  then have "i \<le> n_lvl nd" using assms(2,3) by (auto simp: hnode_def)
  from node_ok_link[OF nd(2) this assms(4)] nd(1) show ?thesis by simp
qed

lemma chain_ok_suf:
  assumes "chain_ok h lv (hnode hdr # lo @ hi)"
  shows "chain_ok h lv (suf_at j lo @ hi)"
proof -
  have "hnode hdr # lo @ hi = (hnode hdr # pre_at j lo) @ (suf_at j lo @ hi)"
    by (metis append_Cons append_assoc pre_suf)
  with assms show ?thesis by (metis chain_ok_append)
qed

lemma suf_at_mem: "n \<in> set (suf_at j ns) \<Longrightarrow> n \<in> set ns"
  by (metis pre_suf set_append UnCI)

lemma down_from_0 [simp]: "down_from 0 = [0]"
  by (simp add: down_from_def)

lemma down_from_Suc [simp]: "down_from (Suc l) = Suc l # down_from l"
  by (simp add: down_from_def)

subsection \<open>The walk of contains, get and erase\<close>

lemma advance_walk:
  assumes "chain_ok h lv (r @ hi)" "get_forward h a i = Some (first_at i (r @ hi))"
    "\<forall>n\<in>set r. n_key n < v" "\<forall>n\<in>set hi. v \<le> n_key n"
  shows "advance h i v a = Some (last_at i a r)"
  using assms
proof (induction r arbitrary: a)
  case Nil
  show ?case
  proof (cases "first_at i hi")
    case None
    with Nil show ?thesis by (subst advance.simps) simp
  next
    case (Some y)
    then obtain n where n: "n \<in> set hi" "n_addr n = y" by (blast dest: first_at_Some)
    with Nil(1) obtain e where "h y = Some e" "entry_value e = n_key n"
      by (auto dest: chain_ok_mem)
    with Nil n Some show ?thesis by (subst advance.simps) auto
  qed
next
  case (Cons n r)
  show ?case
  proof (cases "i \<le> n_lvl n")
    case True
    from Cons.prems(1) have ok: "node_ok h lv n (r @ hi)" and ch: "chain_ok h lv (r @ hi)" by auto
    from node_ok_entry[OF ok] obtain e where e: "h (n_addr n) = Some e" "entry_value e = n_key n"
      by blast
    have "advance h i v (n_addr n) = Some (last_at i (n_addr n) r)"
      using Cons.prems by (intro Cons.IH ch node_ok_forward[OF ok True]) auto
    with Cons.prems True e show ?thesis by (subst advance.simps) simp
  next
    case False
    with Cons.prems have "advance h i v a = Some (last_at i a r)"
      by (intro Cons.IH) auto
    with False show ?thesis by simp
  qed
qed

lemma descend_advance:
  assumes "chain_ok h lv (hnode hdr # lo @ hi)"
    "\<forall>n\<in>set lo. n_key n < v" "\<forall>n\<in>set hi. v \<le> n_key n" "l \<le> MAX_LEVEL"
  shows "for_each (down_from l) (\<lambda>i x. advance h i v x) (last_at (Suc l) hdr lo) = Some (last_at 0 hdr lo)"
  using assms(4)
proof (induction l)
  case 0
  have "advance h 0 v (last_at (Suc 0) hdr lo) = Some (last_at 0 (last_at (Suc 0) hdr lo) (suf_at (Suc 0) lo))"
  proof (rule advance_walk[where lv = lv and hi = hi])
    show "chain_ok h lv (suf_at (Suc 0) lo @ hi)" by (rule chain_ok_suf[OF assms(1)])
    show "get_forward h (last_at (Suc 0) hdr lo) 0 = Some (first_at 0 (suf_at (Suc 0) lo @ hi))"
      by (rule upd_forward[OF assms(1)]) simp_all
  qed (use assms(2,3) in \<open>auto dest: suf_at_mem\<close>)
  then show ?case by (simp add: last_at_step)
next
  case (Suc l)
  have "advance h (Suc l) v (last_at (Suc (Suc l)) hdr lo) =
        Some (last_at (Suc l) (last_at (Suc (Suc l)) hdr lo) (suf_at (Suc (Suc l)) lo))"
  proof (rule advance_walk[where lv = lv and hi = hi])
    show "chain_ok h lv (suf_at (Suc (Suc l)) lo @ hi)" by (rule chain_ok_suf[OF assms(1)])
    show "get_forward h (last_at (Suc (Suc l)) hdr lo) (Suc l) =
          Some (first_at (Suc l) (suf_at (Suc (Suc l)) lo @ hi))"
      by (rule upd_forward[OF assms(1)]) (use Suc.prems in simp_all)
  qed (use assms(2,3) in \<open>auto dest: suf_at_mem\<close>)
  with Suc show ?case by (simp add: last_at_step)
qed

lemma hi_keys:
  "sorted_wrt (<) (map n_key ns) \<Longrightarrow> n \<in> set (dropWhile (\<lambda>n. n_key n < v) ns) \<Longrightarrow> v \<le> n_key n"
  by (induction ns) (auto split: if_splits)

lemma amap_hi:
  "sorted_wrt (<) (map n_key ns) \<Longrightarrow>
   amap ns v = (case dropWhile (\<lambda>n. n_key n < v) ns of [] \<Rightarrow> None
                | n # _ \<Rightarrow> if n_key n = v then Some (n_obj n) else None)"
proof (induction ns)
  case Nil
  then show ?case by (simp add: amap_def)
next
  case (Cons n ns)
  show ?case
  proof (cases "n_key n < v")
    case True
    with Cons show ?thesis by (simp add: amap_def)
  next
    case False
    have "v \<notin> n_key ` set ns" if "n_key n \<noteq> v"
      using Cons.prems False that by auto
    then have "n_key n \<noteq> v \<Longrightarrow> map_of (map (\<lambda>n. (n_key n, n_obj n)) ns) v = None"
      by (simp add: map_of_eq_None_iff image_image)
    with False show ?thesis by (auto simp: amap_def)
  qed
qed

lemma first_at_0: "first_at 0 ns = (case ns of [] \<Rightarrow> None | n # _ \<Rightarrow> Some (n_addr n))"
  by (cases ns) auto

lemma search_result:
  fixes v :: object_id
  assumes "store_inv fr s ns"
  defines "lo \<equiv> takeWhile (\<lambda>n. n_key n < v) ns" and "hi \<equiv> dropWhile (\<lambda>n. n_key n < v) ns"
  shows "for_each (down_from (level s)) (\<lambda>i x. advance (heap s) i v x) (header s)
           = Some (last_at 0 (header s) lo)"
    and "get_forward (heap s) (last_at 0 (header s) lo) 0 = Some (first_at 0 hi)"
    and "chain_ok (heap s) (link_bound fr s) hi"
proof -
  have ns: "ns = lo @ hi" by (simp add: lo_def hi_def)
  from assms(1) have ch: "chain_ok (heap s) (link_bound fr s) (hnode (header s) # lo @ hi)"
    and srt: "sorted_wrt (<) (map n_key ns)" and lv: "\<forall>nd\<in>set ns. n_lvl nd \<le> level s"
    and mx: "level s \<le> MAX_LEVEL"
    unfolding store_inv_def ns by auto
  have lo: "\<forall>n\<in>set lo. n_key n < v" by (auto simp: lo_def dest: set_takeWhileD)
  have hi: "\<forall>n\<in>set hi. v \<le> n_key n" using hi_keys[OF srt] by (auto simp: hi_def)
  have "last_at (Suc (level s)) (header s) lo = header s"
    using lv by (intro last_at_low) (auto simp: ns less_Suc_eq_le)
  with descend_advance[OF ch lo hi mx]
  show "for_each (down_from (level s)) (\<lambda>i x. advance (heap s) i v x) (header s)
           = Some (last_at 0 (header s) lo)" by simp
  from upd_forward[OF ch, of 0 0] show "get_forward (heap s) (last_at 0 (header s) lo) 0 = Some (first_at 0 hi)"
    by simp
  from ch show "chain_ok (heap s) (link_bound fr s) hi"
    by (metis append_Cons chain_ok_append)
qed

lemma contains_inv:
  assumes "store_inv fr s ns"
  shows "ObjectStore_contains s v = Some (amap ns v \<noteq> None)"
proof -
  let ?hi = "dropWhile (\<lambda>n. n_key n < v) ns"
  from assms have srt: "sorted_wrt (<) (map n_key ns)" by (simp add: store_inv_def)
  note sr = search_result[OF assms, of v]
  show ?thesis
  proof (cases ?hi)
    case Nil
    from sr show ?thesis
      by (simp add: ObjectStore_contains_def amap_hi[OF srt] Nil del: dropWhile_eq_Nil_conv)
  next
    case (Cons n rest)
    with sr(3) obtain e where "heap s (n_addr n) = Some e" "entry_value e = n_key n"
      by (auto simp: node_ok_def)
    with sr Cons show ?thesis
      by (simp add: ObjectStore_contains_def amap_hi[OF srt])
  qed
qed

lemma get_inv:
  assumes "store_inv fr s ns"
  shows "ObjectStore_get s v = Some (case amap ns v of None \<Rightarrow> None | Some p \<Rightarrow> p)"
proof -
  let ?hi = "dropWhile (\<lambda>n. n_key n < v) ns"
  from assms have srt: "sorted_wrt (<) (map n_key ns)" by (simp add: store_inv_def)
  note sr = search_result[OF assms, of v]
  show ?thesis
  proof (cases ?hi)
    case Nil
    from sr show ?thesis
      by (simp add: ObjectStore_get_def amap_hi[OF srt] Nil del: dropWhile_eq_Nil_conv)
  next
    case (Cons n rest)
    with sr(3) obtain e where "heap s (n_addr n) = Some e" "entry_value e = n_key n" "obj_ptr e = n_obj n"
      by (auto simp: node_ok_def)
    with sr Cons show ?thesis
      by (simp add: ObjectStore_get_def amap_hi[OF srt])
  qed
qed

subsection \<open>Iteration\<close>

lemma iterate_chain:
  "chain_ok h lv ns \<Longrightarrow> iterate h (first_at 0 ns) = Some (map (\<lambda>n. (n_key n, n_obj n)) ns)"
proof (induction ns)
  case Nil
  then show ?case by (subst iterate.simps) simp
next
  case (Cons n ns)
  then have ok: "node_ok h lv n ns" and ch: "chain_ok h lv ns" by auto
  from ok obtain e where e: "h (n_addr n) = Some e" "entry_value e = n_key n" "obj_ptr e = n_obj n"
    by (auto simp: node_ok_def)
  from node_ok_forward[OF ok, of 0] have f: "get_forward h (n_addr n) 0 = Some (first_at 0 ns)" by simp
  show ?case using e f Cons.IH[OF ch] by (subst iterate.simps) simp
qed

lemma iteration_inv:
  assumes "store_inv fr s ns"
  shows "ObjectStore_iteration s = Some (map (\<lambda>n. (n_key n, n_obj n)) ns)"
proof -
  from assms have ok: "node_ok (heap s) (link_bound fr s) (hnode (header s)) ns"
    and ch: "chain_ok (heap s) (link_bound fr s) ns" by (auto simp: store_inv_def)
  from node_ok_forward[OF ok, of 0] have "get_forward (heap s) (header s) 0 = Some (first_at 0 ns)"
    by (simp add: hnode_def)
  with iterate_chain[OF ch] show ?thesis
    by (simp add: ObjectStore_iteration_def ObjectStore_begin_def)
qed

subsection \<open>Lookup by rank\<close>




subsection \<open>Slot-wise view of the heap\<close>

lemma node_ok_slots:
  "node_ok h lv nd rest \<longleftrightarrow>
     meta h (n_addr nd) = Some (n_key nd, n_obj nd, n_lvl nd + 1, n_lvl nd + 1) \<and>
     (\<forall>i\<le>n_lvl nd. get_forward h (n_addr nd) i = Some (first_at i rest) \<and>
        (i < lv \<longrightarrow> get_link_length h (n_addr nd) i = Some (span_at i rest)))"
  unfolding node_ok_def meta_def get_forward_def get_link_length_def
  by (cases "h (n_addr nd)") auto

lemma meta_None: "meta h b = None \<longleftrightarrow> h b = None"
  by (simp add: meta_def)

lemma meta_dom: "(\<And>b. b \<noteq> a \<Longrightarrow> meta h' b = meta h b) \<Longrightarrow> dom h' \<subseteq> insert a (dom h)"
proof
  fix x assume m: "(\<And>b. b \<noteq> a \<Longrightarrow> meta h' b = meta h b)" and x: "x \<in> dom h'"
  show "x \<in> insert a (dom h)"
  proof (cases "x = a")
    case False
    from x have "meta h' x \<noteq> None" by (auto simp: meta_None)
    with m[OF False] have "meta h x \<noteq> None" by simp
    then show ?thesis by (auto simp: meta_None)
  qed simp
qed

lemma set_forward_obs:
  assumes "set_forward h x i y = Some h'"
  shows "meta h' b = meta h b"
    and "get_forward h' b j = (if b = x \<and> j = i then Some y else get_forward h b j)"
    and "get_link_length h' b j = get_link_length h b j"
  using assms
  by (auto simp: set_forward_def meta_def get_forward_def get_link_length_def nth_list_update
      split: option.splits if_splits)

lemma set_link_length_obs:
  assumes "set_link_length h x i l = Some h'"
  shows "meta h' b = meta h b"
    and "get_forward h' b j = get_forward h b j"
    and "get_link_length h' b j = (if b = x \<and> j = i then Some l else get_link_length h b j)"
  using assms
  by (auto simp: set_link_length_def meta_def get_forward_def get_link_length_def nth_list_update
      split: option.splits if_splits)

lemma set_forward_ok: "get_forward h x i = Some f \<Longrightarrow> \<exists>h'. set_forward h x i y = Some h'"
  by (auto simp: set_forward_def get_forward_def split: option.splits if_splits)

lemma set_link_length_ok: "get_link_length h x i = Some l0 \<Longrightarrow> \<exists>h'. set_link_length h x i l = Some h'"
  by (auto simp: set_link_length_def get_link_length_def split: option.splits if_splits)

lemma for_each_slotwise_gen:
  assumes step: "\<And>i h. i \<in> set js \<Longrightarrow>
      (\<forall>b. get_forward h b i = get_forward h0 b i \<and> get_link_length h b i = get_link_length h0 b i) \<Longrightarrow>
      \<exists>h'. body i h = Some h' \<and> (\<forall>b. meta h' b = meta h b) \<and>
        (\<forall>b j. j \<noteq> i \<longrightarrow> get_forward h' b j = get_forward h b j \<and>
                          get_link_length h' b j = get_link_length h b j) \<and>
        (\<forall>b. get_forward h' b i = nF i b \<and> get_link_length h' b i = nL i b)"
  shows "set ks \<subseteq> set js \<Longrightarrow> distinct ks \<Longrightarrow>
     (\<forall>b j. j \<in> set ks \<longrightarrow> get_forward h b j = get_forward h0 b j \<and>
                             get_link_length h b j = get_link_length h0 b j) \<Longrightarrow>
     \<exists>h'. for_each ks body h = Some h' \<and> (\<forall>b. meta h' b = meta h b) \<and>
        (\<forall>b j. get_forward h' b j = (if j \<in> set ks then nF j b else get_forward h b j)) \<and>
        (\<forall>b j. get_link_length h' b j = (if j \<in> set ks then nL j b else get_link_length h b j))"
proof (induction ks arbitrary: h)
  case Nil
  then show ?case by simp
next
  case (Cons k ks)
  from Cons.prems have k: "k \<in> set js" "k \<notin> set ks" by auto
  from step[OF k(1), of h] Cons.prems(3) obtain h1 where h1: "body k h = Some h1"
    "\<forall>b. meta h1 b = meta h b"
    "\<forall>b j. j \<noteq> k \<longrightarrow> get_forward h1 b j = get_forward h b j \<and>
                          get_link_length h1 b j = get_link_length h b j"
    "\<forall>b. get_forward h1 b k = nF k b \<and> get_link_length h1 b k = nL k b"
    by auto
  have "\<exists>h'. for_each ks body h1 = Some h' \<and> (\<forall>b. meta h' b = meta h1 b) \<and>
        (\<forall>b j. get_forward h' b j = (if j \<in> set ks then nF j b else get_forward h1 b j)) \<and>
        (\<forall>b j. get_link_length h' b j = (if j \<in> set ks then nL j b else get_link_length h1 b j))"
  proof (rule Cons.IH)
    show "set ks \<subseteq> set js" using Cons.prems by auto
    show "distinct ks" using Cons.prems by auto
    show "\<forall>b j. j \<in> set ks \<longrightarrow> get_forward h1 b j = get_forward h0 b j \<and>
                             get_link_length h1 b j = get_link_length h0 b j"
    proof (intro allI impI)
      fix b j assume j: "j \<in> set ks"
      then have "j \<noteq> k" using k(2) by auto
      with h1(3) have "get_forward h1 b j = get_forward h b j \<and>
                       get_link_length h1 b j = get_link_length h b j" by blast
      moreover from Cons.prems(3) j have "get_forward h b j = get_forward h0 b j \<and>
                       get_link_length h b j = get_link_length h0 b j" by simp
      ultimately show "get_forward h1 b j = get_forward h0 b j \<and>
                       get_link_length h1 b j = get_link_length h0 b j" by simp
    qed
  qed
  then obtain h' where h': "for_each ks body h1 = Some h'" "\<forall>b. meta h' b = meta h1 b"
    "\<forall>b j. get_forward h' b j = (if j \<in> set ks then nF j b else get_forward h1 b j)"
    "\<forall>b j. get_link_length h' b j = (if j \<in> set ks then nL j b else get_link_length h1 b j)"
    by blast
  show ?case
  proof (intro exI[of _ h'] conjI allI)
    show "for_each (k # ks) body h = Some h'" using h1(1) h'(1) by simp
    show "meta h' b = meta h b" for b using h1(2) h'(2) by simp
    show "get_forward h' b j = (if j \<in> set (k # ks) then nF j b else get_forward h b j)" for b j
    proof (cases "j = k")
      case True
      with h'(3) h1(4) k(2) show ?thesis by simp
    next
      case False
      with h1(3) have "get_forward h1 b j = get_forward h b j" by blast
      with h'(3) False show ?thesis by simp
    qed
    show "get_link_length h' b j = (if j \<in> set (k # ks) then nL j b else get_link_length h b j)" for b j
    proof (cases "j = k")
      case True
      with h'(4) h1(4) k(2) show ?thesis by simp
    next
      case False
      with h1(3) have "get_link_length h1 b j = get_link_length h b j" by blast
      with h'(4) False show ?thesis by simp
    qed
  qed
qed

lemma for_each_slotwise:
  assumes "distinct js"
   and "\<And>i h. i \<in> set js \<Longrightarrow>
      (\<forall>b. get_forward h b i = get_forward h0 b i \<and> get_link_length h b i = get_link_length h0 b i) \<Longrightarrow>
      \<exists>h'. body i h = Some h' \<and> (\<forall>b. meta h' b = meta h b) \<and>
        (\<forall>b j. j \<noteq> i \<longrightarrow> get_forward h' b j = get_forward h b j \<and>
                          get_link_length h' b j = get_link_length h b j) \<and>
        (\<forall>b. get_forward h' b i = nF i b \<and> get_link_length h' b i = nL i b)"
  shows "\<exists>h'. for_each js body h0 = Some h' \<and> (\<forall>b. meta h' b = meta h0 b) \<and>
        (\<forall>b j. get_forward h' b j = (if j \<in> set js then nF j b else get_forward h0 b j)) \<and>
        (\<forall>b j. get_link_length h' b j = (if j \<in> set js then nL j b else get_link_length h0 b j))"
  by (rule for_each_slotwise_gen[where js = js and ks = js and h = h0 and ?h0.0 = h0, OF assms(2)])
     (use assms(1) in auto)

lemma last_at_or: "last_at i a r = a \<or> last_at i a r \<in> n_addr ` set r"
proof (induction r arbitrary: a)
  case Nil
  then show ?case by simp
next
  case (Cons n r)
  from Cons.IH[of "if i \<le> n_lvl n then n_addr n else a"] show ?case by auto
qed

lemma last_at_in: "first_at i r = Some z \<Longrightarrow> last_at i a r \<in> n_addr ` set r"
proof (induction r arbitrary: a)
  case Nil
  then show ?case by simp
next
  case (Cons n r)
  show ?case
  proof (cases "i \<le> n_lvl n")
    case True
    with last_at_or[of i "n_addr n" r] show ?thesis by auto
  next
    case False
    with Cons show ?thesis by auto
  qed
qed

lemma last_at_hnode: "i \<le> MAX_LEVEL \<Longrightarrow> last_at i a (hnode hdr # lo) = last_at i hdr lo"
  by (simp add: hnode_def)

lemma upd_char:
  assumes "hnode hdr # lo = p @ nd # r" "i \<le> n_lvl nd" "i \<le> MAX_LEVEL"
    "distinct (map n_addr (hnode hdr # lo))"
  shows "(n_addr nd = last_at i hdr lo) = (first_at i r = None)"
proof -
  have "last_at i hdr lo = last_at i hdr (p @ nd # r)"
    using last_at_hnode[OF assms(3), of hdr hdr lo] assms(1) by simp
  also have "\<dots> = last_at i (n_addr nd) r" using assms(2) by (simp add: last_at_append)
  finally have eq: "last_at i hdr lo = last_at i (n_addr nd) r" .
  show ?thesis
  proof (cases "first_at i r")
    case None
    then have "last_at i (n_addr nd) r = n_addr nd"
      by (intro last_at_low) (simp add: first_at_None)
    with eq None show ?thesis by simp
  next
    case (Some z)
    then have "last_at i (n_addr nd) r \<in> n_addr ` set r" by (rule last_at_in)
    moreover have "n_addr nd \<notin> n_addr ` set r" using assms(4) unfolding assms(1) by auto
    ultimately show ?thesis using eq Some by auto
  qed
qed

lemma upd_in_prefix:
  "i \<le> MAX_LEVEL \<Longrightarrow> last_at i hdr lo \<in> n_addr ` set (hnode hdr # lo)"
  using last_at_or[of i hdr lo] by (auto simp: hnode_def)

lemma chain_ok_prefixI:
  assumes "\<And>p nd r. xs = p @ nd # r \<Longrightarrow> node_ok h lv nd (r @ ts)" "chain_ok h lv ts"
  shows "chain_ok h lv (xs @ ts)"
  using assms(1)
proof (induction xs)
  case Nil
  then show ?case using assms(2) by simp
next
  case (Cons x xs)
  have "node_ok h lv x (xs @ ts)" using Cons.prems[of "[]" x xs] by simp
  moreover have "chain_ok h lv (xs @ ts)"
  proof (rule Cons.IH)
    fix p nd r assume "xs = p @ nd # r"
    then have "x # xs = (x # p) @ nd # r" by simp
    then show "node_ok h lv nd (r @ ts)" by (rule Cons.prems)
  qed
  ultimately show ?case by simp
qed

lemma chain_ok_frame:
  assumes "chain_ok h lv ns" "lv' \<le> lv \<or> (\<forall>n\<in>set ns. n_lvl n < lv)"
    "\<And>b. b \<in> n_addr ` set ns \<Longrightarrow> meta h' b = meta h b"
    "\<And>b j. b \<in> n_addr ` set ns \<Longrightarrow> get_forward h' b j = get_forward h b j"
    "\<And>b j. b \<in> n_addr ` set ns \<Longrightarrow> get_link_length h' b j = get_link_length h b j"
  shows "chain_ok h' lv' ns"
  using assms
proof (induction ns)
  case Nil
  then show ?case by simp
next
  case (Cons n ns)
  from Cons.prems(1) have ok: "node_ok h lv n ns" and ch: "chain_ok h lv ns" by auto
  have "node_ok h' lv' n ns"
    using ok Cons.prems(2) Cons.prems(3)[of "n_addr n"] Cons.prems(4)[of "n_addr n"]
      Cons.prems(5)[of "n_addr n"]
    unfolding node_ok_slots by auto
  moreover have "chain_ok h' lv' ns"
    using ch Cons.prems(2-5) by (intro Cons.IH) auto
  ultimately show ?case by simp
qed

subsection \<open>The search of erase\<close>

lemma descend_erase:
  assumes "chain_ok h lv (hnode hdr # lo @ hi)"
    "\<forall>n\<in>set lo. n_key n < v" "\<forall>n\<in>set hi. v \<le> n_key n" "l \<le> MAX_LEVEL"
    "length update = MAX_LEVEL + 1"
  shows "\<exists>update'. for_each (down_from l) (erase_search h v) (last_at (Suc l) hdr lo, update)
             = Some (last_at 0 hdr lo, update') \<and> length update' = MAX_LEVEL + 1 \<and>
           (\<forall>j\<le>l. update' ! j = Some (last_at j hdr lo)) \<and> (\<forall>j>l. update' ! j = update ! j)"
  using assms(4,5)
proof (induction l arbitrary: update)
  case 0
  have "advance h 0 v (last_at (Suc 0) hdr lo) = Some (last_at 0 (last_at (Suc 0) hdr lo) (suf_at (Suc 0) lo))"
  proof (rule advance_walk[where lv = lv and hi = hi])
    show "chain_ok h lv (suf_at (Suc 0) lo @ hi)" by (rule chain_ok_suf[OF assms(1)])
    show "get_forward h (last_at (Suc 0) hdr lo) 0 = Some (first_at 0 (suf_at (Suc 0) lo @ hi))"
      by (rule upd_forward[OF assms(1)]) simp_all
  qed (use assms(2,3) in \<open>auto dest: suf_at_mem\<close>)
  then show ?case using 0 by (simp add: last_at_step erase_search_def)
next
  case (Suc l)
  have adv: "advance h (Suc l) v (last_at (Suc (Suc l)) hdr lo) =
        Some (last_at (Suc l) (last_at (Suc (Suc l)) hdr lo) (suf_at (Suc (Suc l)) lo))"
  proof (rule advance_walk[where lv = lv and hi = hi])
    show "chain_ok h lv (suf_at (Suc (Suc l)) lo @ hi)" by (rule chain_ok_suf[OF assms(1)])
    show "get_forward h (last_at (Suc (Suc l)) hdr lo) (Suc l) =
          Some (first_at (Suc l) (suf_at (Suc (Suc l)) lo @ hi))"
      by (rule upd_forward[OF assms(1)]) (use Suc.prems in simp_all)
  qed (use assms(2,3) in \<open>auto dest: suf_at_mem\<close>)
  let ?u1 = "update[Suc l := Some (last_at (Suc l) hdr lo)]"
  from Suc.IH[of ?u1] Suc.prems obtain update' where
    u: "for_each (down_from l) (erase_search h v) (last_at (Suc l) hdr lo, ?u1)
             = Some (last_at 0 hdr lo, update')" "length update' = MAX_LEVEL + 1"
       "\<forall>j\<le>l. update' ! j = Some (last_at j hdr lo)" "\<forall>j>l. update' ! j = ?u1 ! j"
    by auto
  have "\<forall>j\<le>Suc l. update' ! j = Some (last_at j hdr lo)"
    using u(3,4) Suc.prems by (auto simp: le_Suc_eq)
  moreover have "\<forall>j>Suc l. update' ! j = update ! j" using u(4) by auto
  moreover have "erase_search h v (Suc l) (last_at (Suc (Suc l)) hdr lo, update) =
      Some (last_at (Suc l) hdr lo, ?u1)"
    using adv by (simp add: last_at_step erase_search_def)
  ultimately show ?case using u(1,2) by simp
qed

subsection \<open>Unlinking one level\<close>

lemma erase_unlink_step:
  assumes "update ! i = Some u" "get_forward h u i = Some f" "get_link_length h u i = Some l"
    "f = Some y \<Longrightarrow> get_forward h y i = Some fx \<and> get_link_length h y i = Some lx" "u \<noteq> y"
  shows "\<exists>h'. erase_unlink update y i h = Some h' \<and> (\<forall>b. meta h' b = meta h b) \<and>
     (\<forall>b j. j \<noteq> i \<longrightarrow> get_forward h' b j = get_forward h b j \<and>
                       get_link_length h' b j = get_link_length h b j) \<and>
     (\<forall>b. get_forward h' b i = (if b = u \<and> f = Some y then Some fx else get_forward h b i) \<and>
          get_link_length h' b i =
            (if b = u then Some (if f = Some y then l + (lx - 1) else l - 1)
             else get_link_length h b i))"
proof (cases "f = Some y")
  case False
  from set_link_length_ok[OF assms(3), of "l - 1"] obtain h' where
    h': "set_link_length h u i (l - 1) = Some h'" by blast
  have "erase_unlink update y i h = Some h'"
    using assms(1-3) False h' by (simp add: erase_unlink_def)
  then show ?thesis using set_link_length_obs[OF h'] False by auto
next
  case True
  with assms(4) have y: "get_forward h y i = Some fx" "get_link_length h y i = Some lx" by auto
  from set_forward_ok[OF assms(2), of fx] obtain h1 where
    h1: "set_forward h u i fx = Some h1" by blast
  note o1 = set_forward_obs[OF h1]
  have l1: "get_link_length h1 u i = Some l" "get_link_length h1 y i = Some lx"
    using o1(3) assms(3) y(2) by auto
  from set_link_length_ok[OF l1(1), of "l + (lx - 1)"] obtain h' where
    h': "set_link_length h1 u i (l + (lx - 1)) = Some h'" by blast
  note o2 = set_link_length_obs[OF h']
  have "erase_unlink update y i h = Some h'"
    using assms(1,2) True y h1 l1 h' by (simp add: erase_unlink_def)
  then show ?thesis using o1 o2 True by auto
qed

lemma lower_level_spec:
  assumes "\<forall>j\<le>l. get_forward h hdr j = Some (first_at j ns)" "\<forall>n\<in>set ns. n_lvl n \<le> l"
  shows "\<exists>l'\<le>l. lower_level h hdr l = Some l' \<and> (\<forall>n\<in>set ns. n_lvl n \<le> l')"
  using assms
proof (induction l)
  case 0
  then show ?case by simp
next
  case (Suc l)
  show ?case
  proof (cases "first_at (Suc l) ns")
    case None
    then have "\<forall>n\<in>set ns. n_lvl n \<le> l" by (auto simp: first_at_None)
    with Suc.IH Suc.prems(1) obtain l' where "l' \<le> l" "lower_level h hdr l = Some l'"
      "\<forall>n\<in>set ns. n_lvl n \<le> l'" by auto
    with None Suc.prems(1) show ?thesis by (intro exI[of _ l']) simp
  next
    case (Some z)
    with Suc.prems show ?thesis by (intro exI[of _ "Suc l"]) simp
  qed
qed

lemma first_at_high: "(\<forall>n\<in>set ns. n_lvl n < i) \<Longrightarrow> first_at i ns = None"
  by (simp add: first_at_None)

lemma first_at_suf [simp]: "first_at i (suf_at i lo) = None"
  by (simp add: first_at_None suf_at_low)

lemma erase_found:
  fixes s :: "'a ObjectStore"
  assumes inv: "store_inv fr s (lo @ xn # hi')" and lo: "\<forall>n\<in>set lo. n_key n < v" and xn: "n_key xn = v"
  shows "\<exists>s'. ObjectStore_erase s v = Some s' \<and> store_inv False s' (lo @ hi') \<and> header s' = header s \<and>
           dom (heap s') \<subseteq> dom (heap s)"
proof -
  define h where "h = heap s"
  define hdr where "hdr = header s"
  define L where "L = level s"
  define y where "y = n_addr xn"
  define U where "U = (\<lambda>j. last_at j hdr lo)"
  let ?hi = "xn # hi'"
  let ?H = "hnode hdr :: 'a snode"
  from inv have nfr: "\<not> fr" by (auto simp: store_inv_def)
  from inv have ch: "chain_ok h (Suc L) (?H # lo @ ?hi)"
    and dist: "distinct (map n_addr (?H # lo @ ?hi))"
    and srt: "sorted_wrt (<) (map n_key (lo @ ?hi))"
    and lv: "\<forall>nd\<in>set (lo @ ?hi). n_lvl nd \<le> L"
    and mx: "L \<le> MAX_LEVEL" and n: "num_entries s = int (length (lo @ ?hi))"
    unfolding store_inv_def h_def hdr_def L_def using nfr by (auto simp: link_bound_def)
  have hi: "\<forall>n\<in>set ?hi. v \<le> n_key n" using srt xn by (auto simp: sorted_wrt_append)
  have okx: "node_ok h (Suc L) xn hi'" and chi': "chain_ok h (Suc L) hi'"
    using ch chain_ok_append[of h "Suc L" "?H # lo" "?hi"] by auto
  have y_notin: "y \<notin> n_addr ` set (?H # lo)" "y \<notin> n_addr ` set hi'"
    using dist by (auto simp: y_def)
  have U_in: "U j \<in> n_addr ` set (?H # lo)" if "j \<le> MAX_LEVEL" for j
    unfolding U_def by (rule upd_in_prefix[OF that])
  have U_ne: "U j \<noteq> y" if "j \<le> MAX_LEVEL" for j using U_in[OF that] y_notin by auto
  have "n_addr ` set (?H # lo) \<inter> n_addr ` set hi' = {}"
    using dist by auto
  then have hi'_notin: "b \<notin> n_addr ` set (?H # lo)" if "b \<in> n_addr ` set hi'" for b
    using that by blast
  \<comment> \<open>the search\<close>
  have start: "last_at (Suc L) hdr lo = hdr"
    using lv by (intro last_at_low) (auto simp: less_Suc_eq_le)
  from descend_erase[OF ch lo hi mx, of "replicate (MAX_LEVEL + 1) None"] start
  obtain update where
    srch: "for_each (down_from L) (erase_search h v) (hdr, replicate (MAX_LEVEL + 1) None)
             = Some (U 0, update)"
    and upd: "\<forall>j\<le>L. update ! j = Some (U j)"
    unfolding U_def by auto
  have x0: "get_forward h (U 0) 0 = Some (Some y)"
    using upd_forward[OF ch, of 0 0] by (simp add: U_def y_def)
  from node_ok_entry[OF okx] obtain e where e: "h y = Some e" "entry_value e = v"
    using xn by (auto simp: y_def)
  \<comment> \<open>the values read at each level\<close>
  define f where "f = (\<lambda>i. first_at i (suf_at i lo @ ?hi))"
  define l where "l = (\<lambda>i. span_at i (suf_at i lo @ ?hi))"
  have Uf: "get_forward h (U i) i = Some (f i)" if "i \<le> MAX_LEVEL" for i
    unfolding U_def f_def by (rule upd_forward[OF ch order_refl that])
  have Ul: "get_link_length h (U i) i = Some (l i)" if "i \<le> L" for i
    unfolding U_def l_def using that mx by (intro upd_link[OF ch order_refl]) auto
  have fy: "i \<le> n_lvl xn" if "f i = Some y" for i
  proof (rule ccontr)
    assume "\<not> i \<le> n_lvl xn"
    with that have "first_at i hi' = Some y"
      by (auto simp: f_def first_at_append split: option.splits)
    then show False using y_notin(2) by (auto dest: first_at_Some)
  qed
  define nF where "nF = (\<lambda>i b. if b = U i \<and> f i = Some y then Some (first_at i hi') else get_forward h b i)"
  define nL where "nL = (\<lambda>i b. if b = U i then Some (if f i = Some y then l i + (span_at i hi' - 1) else l i - 1)
                                else get_link_length h b i)"
  have "\<exists>h1. for_each [0..<L + 1] (erase_unlink update y) h = Some h1 \<and> (\<forall>b. meta h1 b = meta h b) \<and>
        (\<forall>b j. get_forward h1 b j = (if j \<in> set [0..<L + 1] then nF j b else get_forward h b j)) \<and>
        (\<forall>b j. get_link_length h1 b j = (if j \<in> set [0..<L + 1] then nL j b else get_link_length h b j))"
  proof (rule for_each_slotwise)
    fix i and g :: "'a heap"
    assume i: "i \<in> set [0..<L + 1]"
      and same: "\<forall>b. get_forward g b i = get_forward h b i \<and> get_link_length g b i = get_link_length h b i"
    from i have iL: "i \<le> L" and iM: "i \<le> MAX_LEVEL" using mx by auto
    have 1: "update ! i = Some (U i)" using upd iL by simp
    have 2: "get_forward g (U i) i = Some (f i)" using same Uf[OF iM] by simp
    have 3: "get_link_length g (U i) i = Some (l i)" using same Ul[OF iL] by simp
    have 4: "get_forward g y i = Some (first_at i hi') \<and> get_link_length g y i = Some (span_at i hi')"
      if "f i = Some y"
      using same node_ok_forward[OF okx fy[OF that]] node_ok_link[OF okx fy[OF that] le_imp_less_Suc[OF iL]]
      by (simp add: y_def)
    from erase_unlink_step[OF 1 2 3 4 U_ne[OF iM]]
    show "\<exists>h'. erase_unlink update y i g = Some h' \<and> (\<forall>b. meta h' b = meta g b) \<and>
        (\<forall>b j. j \<noteq> i \<longrightarrow> get_forward h' b j = get_forward g b j \<and>
                          get_link_length h' b j = get_link_length g b j) \<and>
        (\<forall>b. get_forward h' b i = nF i b \<and> get_link_length h' b i = nL i b)"
      using same unfolding nF_def nL_def by auto
  qed simp
  then obtain h1 where loop: "for_each [0..<L + 1] (erase_unlink update y) h = Some h1"
    and m1: "\<And>b. meta h1 b = meta h b"
    and f1: "\<And>b j. get_forward h1 b j = (if j \<le> L then nF j b else get_forward h b j)"
    and l1: "\<And>b j. get_link_length h1 b j = (if j \<le> L then nL j b else get_link_length h b j)"
    by (auto simp: less_Suc_eq_le)
  define h2 where "h2 = h1(y := None)"
  have m2: "meta h2 b = meta h b" if "b \<noteq> y" for b
    using that m1[of b] by (simp add: h2_def meta_def)
  have f2: "get_forward h2 b j = (if j \<le> L then nF j b else get_forward h b j)" if "b \<noteq> y" for b j
    using that f1[of b j] by (simp add: h2_def get_forward_def)
  have l2: "get_link_length h2 b j = (if j \<le> L then nL j b else get_link_length h b j)" if "b \<noteq> y" for b j
    using that l1[of b j] by (simp add: h2_def get_link_length_def)
  \<comment> \<open>the chain after the removal\<close>
  have ch2: "chain_ok h2 (Suc L) ((?H # lo) @ hi')"
  proof (rule chain_ok_prefixI)
    show "chain_ok h2 (Suc L) hi'"
    proof (rule chain_ok_frame[OF chi'])
      fix b assume b: "b \<in> n_addr ` set hi'"
      then have bny: "b \<noteq> y" using y_notin(2) by auto
      have bU: "b \<noteq> U j" if "j \<le> L" for j using U_in[of j] hi'_notin[OF b] that mx by auto
      show "meta h2 b = meta h b" by (rule m2[OF bny])
      show "get_forward h2 b j = get_forward h b j" for j
        using f2[OF bny, of j] bU[of j] by (simp add: nF_def)
      show "get_link_length h2 b j = get_link_length h b j" for j
        using l2[OF bny, of j] bU[of j] by (simp add: nL_def)
    qed simp
  next
    fix p nd r assume dec: "?H # lo = p @ nd # r"
    then have "?H # lo @ ?hi = p @ nd # (r @ ?hi)" by (metis append_Cons append_assoc)
    with ch have ok: "node_ok h (Suc L) nd (r @ ?hi)" by (metis chain_ok_mid)
    have nd_in: "n_addr nd \<in> n_addr ` set (?H # lo)" unfolding dec by simp
    then have bny: "n_addr nd \<noteq> y" using y_notin(1) by auto
    have r_lo: "set r \<subseteq> set lo" using dec by (cases p) auto
    have r_lv: "\<forall>n\<in>set r. n_lvl n \<le> L" using r_lo lv by auto
    have nd_lv: "n_lvl nd \<le> MAX_LEVEL"
      using dec lv mx by (cases p) (auto simp: hnode_def)
    from dist have dist': "distinct (map n_addr (?H # lo))" by simp
    show "node_ok h2 (Suc L) nd (r @ hi')"
      unfolding node_ok_slots
    proof (intro conjI allI impI)
      show "meta h2 (n_addr nd) = Some (n_key nd, n_obj nd, n_lvl nd + 1, n_lvl nd + 1)"
        using ok m2[OF bny] by (simp add: node_ok_slots)
    next
      fix i assume i: "i \<le> n_lvl nd"
      then have iM: "i \<le> MAX_LEVEL" using nd_lv by simp
      have of: "get_forward h (n_addr nd) i = Some (first_at i (r @ ?hi))"
        by (rule node_ok_forward[OF ok i])
      have uc: "(n_addr nd = U i) = (first_at i r = None)"
        unfolding U_def by (rule upd_char[OF dec i iM dist'])
      have fi: "f i = first_at i (r @ ?hi)" if "n_addr nd = U i"
        using Uf[OF iM] of that by simp
      show "get_forward h2 (n_addr nd) i = Some (first_at i (r @ hi'))"
      proof (cases "i \<le> L")
        case False
        have "n_lvl n < i" if "n \<in> set r \<union> set ?hi" for n
        proof -
          from that have "n_lvl n \<le> L" using r_lv lv by auto
          then show ?thesis using False by simp
        qed
        then have "first_at i (r @ ?hi) = None" "first_at i (r @ hi') = None"
          by (auto intro!: first_at_high)
        with False of f2[OF bny, of i] show ?thesis by simp
      next
        case True
        show ?thesis
        proof (cases "first_at i r")
          case (Some z)
          with uc of f2[OF bny, of i] True show ?thesis
            by (simp add: nF_def first_at_append)
        next
          case None
          with uc have u: "n_addr nd = U i" by simp
          show ?thesis
          proof (cases "i \<le> n_lvl xn")
            case True
            then have "f i = Some y" using fi[OF u] None by (simp add: first_at_append y_def)
            with f2[OF bny, of i] \<open>i \<le> L\<close> u None show ?thesis
              by (simp add: nF_def first_at_append)
          next
            case False
            then have "f i = first_at i hi'" using fi[OF u] None by (simp add: first_at_append)
            moreover have "first_at i hi' \<noteq> Some y" using y_notin(2) by (auto dest: first_at_Some)
            ultimately show ?thesis using f2[OF bny, of i] \<open>i \<le> L\<close> u None of False
              by (simp add: nF_def first_at_append)
          qed
        qed
      qed
      assume "i < Suc L"
      then have iL: "i \<le> L" by simp
      have ol: "get_link_length h (n_addr nd) i = Some (span_at i (r @ ?hi))"
        by (rule node_ok_link[OF ok i le_imp_less_Suc[OF iL]])
      have li: "l i = span_at i (r @ ?hi)" if "n_addr nd = U i"
        using Ul[OF iL] ol that by simp
      show "get_link_length h2 (n_addr nd) i = Some (span_at i (r @ hi'))"
      proof (cases "first_at i r")
        case (Some z)
        with uc ol l2[OF bny, of i] iL show ?thesis
          by (simp add: nL_def span_at_append)
      next
        case None
        with uc have u: "n_addr nd = U i" by simp
        show ?thesis
        proof (cases "i \<le> n_lvl xn")
          case True
          then have "f i = Some y" using fi[OF u] None by (simp add: first_at_append y_def)
          with l2[OF bny, of i] iL u None li[OF u] True show ?thesis
            by (simp add: nL_def span_at_append)
        next
          case False
          then have "f i = first_at i hi'" using fi[OF u] None by (simp add: first_at_append)
          moreover have "first_at i hi' \<noteq> Some y" using y_notin(2) by (auto dest: first_at_Some)
          ultimately show ?thesis using l2[OF bny, of i] iL u None li[OF u] False
            by (simp add: nL_def span_at_append)
        qed
      qed
    qed
  qed
  \<comment> \<open>lowering the level\<close>
  have hdr_ok: "node_ok h2 (Suc L) ?H (lo @ hi')" using ch2 by simp
  have "\<forall>j\<le>L. get_forward h2 hdr j = Some (first_at j (lo @ hi'))"
  proof (intro allI impI)
    fix j assume "j \<le> L"
    then have "j \<le> n_lvl ?H" using mx by (simp add: hnode_def)
    from node_ok_forward[OF hdr_ok this] show "get_forward h2 hdr j = Some (first_at j (lo @ hi'))"
      by (simp add: hnode_def)
  qed
  moreover have "\<forall>n\<in>set (lo @ hi'). n_lvl n \<le> L" using lv by auto
  ultimately obtain l' where l': "l' \<le> L" "lower_level h2 hdr L = Some l'"
    "\<forall>n\<in>set (lo @ hi'). n_lvl n \<le> l'"
    using lower_level_spec[of L h2 hdr "lo @ hi'"] by blast
  have ch3: "chain_ok h2 (Suc l') (?H # lo @ hi')"
  proof (rule chain_ok_frame[where h = h2 and lv = "Suc L"])
    show "chain_ok h2 (Suc L) (?H # lo @ hi')" using ch2 by simp
    show "Suc l' \<le> Suc L \<or> (\<forall>n\<in>set (?H # lo @ hi'). n_lvl n < Suc L)" using l'(1) by simp
  qed simp_all
  define s' where "s' = s\<lparr>heap := h2, level := l', num_entries := num_entries s - 1\<rparr>"
  have "ObjectStore_erase s v = Some s'"
    using srch x0 e loop l'(2)
    by (simp add: ObjectStore_erase_def s'_def h_def hdr_def L_def h2_def)
  moreover have "store_inv False s' (lo @ hi')"
    unfolding store_inv_def s'_def link_bound_def
    using ch3 dist srt l'(1,3) mx n by (auto simp: hdr_def sorted_wrt_append)
  moreover have "dom h2 \<subseteq> dom h"
  proof -
    have "dom h2 \<subseteq> insert y (dom h)" using m2 by (rule meta_dom)
    moreover have "y \<notin> dom h2" by (simp add: h2_def)
    ultimately show ?thesis by auto
  qed
  ultimately show ?thesis by (auto simp: s'_def h_def)
qed

lemma amap_remove:
  assumes "sorted_wrt (<) (map n_key (lo @ xn # hi'))"
  shows "amap (lo @ hi') = (amap (lo @ xn # hi'))(n_key xn := None)"
proof (rule ext)
  fix k
  from assms have "n_key xn \<notin> n_key ` set lo" "n_key xn \<notin> n_key ` set hi'"
    by (auto simp: sorted_wrt_append)
  then have "map_of (map (\<lambda>n. (n_key n, n_obj n)) lo) (n_key xn) = None"
    "map_of (map (\<lambda>n. (n_key n, n_obj n)) hi') (n_key xn) = None"
    by (simp_all add: map_of_eq_None_iff image_image)
  then show "amap (lo @ hi') k = ((amap (lo @ xn # hi'))(n_key xn := None)) k"
    by (auto simp: amap_def map_add_def split: option.splits)
qed

lemma erase_search_result:
  fixes v :: object_id
  assumes "store_inv fr s ns"
  defines "lo \<equiv> takeWhile (\<lambda>n. n_key n < v) ns" and "hi \<equiv> dropWhile (\<lambda>n. n_key n < v) ns"
  shows "\<exists>update. for_each (down_from (level s)) (erase_search (heap s) v)
            (header s, replicate (MAX_LEVEL + 1) None) = Some (last_at 0 (header s) lo, update)"
proof -
  have ns: "ns = lo @ hi" by (simp add: lo_def hi_def)
  from assms(1) have ch: "chain_ok (heap s) (link_bound fr s) (hnode (header s) # lo @ hi)"
    and srt: "sorted_wrt (<) (map n_key ns)" and lv: "\<forall>nd\<in>set ns. n_lvl nd \<le> level s"
    and mx: "level s \<le> MAX_LEVEL"
    unfolding store_inv_def ns by auto
  have lo: "\<forall>n\<in>set lo. n_key n < v" by (auto simp: lo_def dest: set_takeWhileD)
  have hi: "\<forall>n\<in>set hi. v \<le> n_key n" using hi_keys[OF srt] by (auto simp: hi_def)
  have "last_at (Suc (level s)) (header s) lo = header s"
    using lv by (intro last_at_low) (auto simp: ns less_Suc_eq_le)
  with descend_erase[OF ch lo hi mx, of "replicate (MAX_LEVEL + 1) None"]
  show ?thesis by auto
qed

lemma erase_inv:
  assumes "store_inv fr s ns"
  shows "\<exists>s' ns'. ObjectStore_erase s v = Some s' \<and> store_inv fr s' ns' \<and>
           amap ns' = (amap ns)(v := None) \<and> header s' = header s \<and>
           dom (heap s') \<subseteq> dom (heap s) \<and>
           (amap ns v = None \<longrightarrow> s' = s)"
proof -
  let ?lo = "takeWhile (\<lambda>n. n_key n < v) ns"
  let ?hi = "dropWhile (\<lambda>n. n_key n < v) ns"
  from assms have srt: "sorted_wrt (<) (map n_key ns)" by (simp add: store_inv_def)
  note sr = search_result[OF assms, of v]
  from erase_search_result[OF assms, of v] obtain update where
    es: "for_each (down_from (level s)) (erase_search (heap s) v)
            (header s, replicate (MAX_LEVEL + 1) None) = Some (last_at 0 (header s) ?lo, update)"
    by blast
  have same: "(amap ns)(v := None) = amap ns" if "amap ns v = None"
    using that by (auto simp: fun_upd_idem_iff)
  show ?thesis
  proof (cases ?hi)
    case Nil
    then have "amap ns v = None" by (simp add: amap_hi[OF srt] del: dropWhile_eq_Nil_conv)
    moreover have "ObjectStore_erase s v = Some s"
      using es sr(2) by (simp add: ObjectStore_erase_def Nil del: dropWhile_eq_Nil_conv)
    ultimately show ?thesis using assms same by auto
  next
    case (Cons n hi')
    with sr(3) obtain e where e: "heap s (n_addr n) = Some e" "entry_value e = n_key n"
      by (auto simp: node_ok_def)
    show ?thesis
    proof (cases "n_key n = v")
      case False
      then have "amap ns v = None" by (simp add: amap_hi[OF srt] Cons)
      moreover have "ObjectStore_erase s v = Some s"
        using es sr(2) e False by (simp add: ObjectStore_erase_def Cons)
      ultimately show ?thesis using assms same by auto
    next
      case True
      have ns: "?lo @ n # hi' = ns" using Cons by (metis takeWhile_dropWhile_id)
      have lo: "\<forall>n\<in>set ?lo. n_key n < v" by (auto dest: set_takeWhileD)
      have inv': "store_inv fr s (?lo @ n # hi')" by (subst ns) (rule assms)
      then have "\<not> fr" by (auto simp: store_inv_def)
      with erase_found[OF inv' lo True] obtain s' where
        s': "ObjectStore_erase s v = Some s'" "store_inv fr s' (?lo @ hi')" "header s' = header s"
          "dom (heap s') \<subseteq> dom (heap s)"
        by auto
      have "sorted_wrt (<) (map n_key (?lo @ n # hi'))" by (subst ns) (rule srt)
      from amap_remove[OF this] have "amap (?lo @ hi') = (amap ns)(v := None)"
        unfolding ns True .
      moreover have "amap ns v \<noteq> None" by (simp add: amap_hi[OF srt] Cons True)
      ultimately show ?thesis using s' by auto
    qed
  qed
qed

subsection \<open>The search of insert\<close>

lemma advance_insert_walk:
  assumes "chain_ok h lv (r @ hi)" "get_forward h a i = Some (first_at i (r @ hi))"
    "r \<noteq> [] \<Longrightarrow> get_link_length h a i = Some (c + span_at i (r @ hi))"
    "\<forall>n\<in>set r. n_key n < v" "\<forall>n\<in>set hi. v \<le> n_key n" "r \<noteq> [] \<Longrightarrow> i < lv" "i < length spl"
  shows "advance_insert h i v (a, spl, sk) =
         Some (last_at i a r, spl[i := spl ! i + dist_at i c r], sk + dist_at i c r)"
  using assms
proof (induction r arbitrary: a c spl sk)
  case Nil
  show ?case
  proof (cases "first_at i hi")
    case None
    with Nil show ?thesis by (subst advance_insert.simps) simp
  next
    case (Some y)
    then obtain n where n: "n \<in> set hi" "n_addr n = y" by (blast dest: first_at_Some)
    with Nil(1) obtain e where "h y = Some e" "entry_value e = n_key n"
      by (auto dest: chain_ok_mem)
    with Nil n Some show ?thesis by (subst advance_insert.simps) auto
  qed
next
  case (Cons n r)
  show ?case
  proof (cases "i \<le> n_lvl n")
    case True
    from Cons.prems(1) have ok: "node_ok h lv n (r @ hi)" and ch: "chain_ok h lv (r @ hi)" by auto
    from node_ok_entry[OF ok] obtain e where e: "h (n_addr n) = Some e" "entry_value e = n_key n"
      by blast
    let ?spl = "spl[i := spl ! i + (c + 1)]"
    have "advance_insert h i v (n_addr n, ?spl, sk + (c + 1)) =
          Some (last_at i (n_addr n) r, ?spl[i := ?spl ! i + dist_at i 0 r], sk + (c + 1) + dist_at i 0 r)"
    proof (rule Cons.IH[OF ch])
      show "get_forward h (n_addr n) i = Some (first_at i (r @ hi))"
        by (rule node_ok_forward[OF ok True])
      have "i < lv" using Cons.prems(6) by simp
      then show "get_link_length h (n_addr n) i = Some (0 + span_at i (r @ hi))"
        using node_ok_link[OF ok True] by simp
      show "i < lv" using Cons.prems(6) by simp
    qed (use Cons.prems in auto)
    moreover have "?spl[i := ?spl ! i + dist_at i 0 r] = spl[i := spl ! i + (c + 1 + dist_at i 0 r)]"
      using Cons.prems(7) by (simp add: algebra_simps)
    ultimately show ?thesis using Cons.prems True e
      by (subst advance_insert.simps) (simp add: algebra_simps)
  next
    case False
    have "advance_insert h i v (a, spl, sk) =
          Some (last_at i a r, spl[i := spl ! i + dist_at i (c + 1) r], sk + dist_at i (c + 1) r)"
    proof (rule Cons.IH)
      show "chain_ok h lv (r @ hi)" using Cons.prems(1) by simp
      show "get_forward h a i = Some (first_at i (r @ hi))" using Cons.prems(2) False by simp
      show "get_link_length h a i = Some (c + 1 + span_at i (r @ hi))" using Cons.prems(3) False by simp
      show "i < lv" using Cons.prems(6) by simp
    qed (use Cons.prems in auto)
    with False show ?thesis by simp
  qed
qed

lemma insert_search_step:
  assumes "chain_ok h lv (hnode hdr # lo @ hi)"
    "\<forall>n\<in>set lo. n_key n < v" "\<forall>n\<in>set hi. v \<le> n_key n" "i \<le> MAX_LEVEL"
    "lo \<noteq> [] \<longrightarrow> i < lv" "length spl = MAX_LEVEL + 1"
  shows "insert_search h v i (last_at (Suc i) hdr lo, update, spl, int (length (pre_at (Suc i) lo))) =
         Some (last_at i hdr lo, update[i := Some (last_at i hdr lo)],
               spl[i := int (length (pre_at i lo))], int (length (pre_at i lo)))"
proof -
  let ?sk = "int (length (pre_at (Suc i) lo))"
  let ?spl = "spl[i := ?sk]"
  let ?d = "dist_at i 0 (suf_at (Suc i) lo)"
  have "advance_insert h i v (last_at (Suc i) hdr lo, ?spl, ?sk) =
        Some (last_at i (last_at (Suc i) hdr lo) (suf_at (Suc i) lo), ?spl[i := ?spl ! i + ?d], ?sk + ?d)"
  proof (rule advance_insert_walk[where lv = lv and hi = hi])
    show "chain_ok h lv (suf_at (Suc i) lo @ hi)" by (rule chain_ok_suf[OF assms(1)])
    show "get_forward h (last_at (Suc i) hdr lo) i = Some (first_at i (suf_at (Suc i) lo @ hi))"
      by (rule upd_forward[OF assms(1)]) (use assms(4) in simp_all)
    assume "suf_at (Suc i) lo \<noteq> []"
    then have "lo \<noteq> []" by auto
    then show "i < lv" using assms(5) by simp
    then show "get_link_length h (last_at (Suc i) hdr lo) i = Some (0 + span_at i (suf_at (Suc i) lo @ hi))"
      using upd_link[OF assms(1), of i "Suc i"] assms(4) by simp
  qed (use assms(2,3,4,6) in \<open>auto dest: suf_at_mem\<close>)
  moreover have "length (pre_at i lo) = length (pre_at (Suc i) lo) + length (pre_at i (suf_at (Suc i) lo))"
    using pre_at_split[of i lo] by (metis length_append)
  then have "?sk + ?d = int (length (pre_at i lo))" by (auto simp: dist_at_pre)
  moreover have "?spl ! i = ?sk" using assms(4,6) by simp
  ultimately show ?thesis by (simp add: insert_search_def last_at_step)
qed

lemma descend_insert:
  assumes "chain_ok h lv (hnode hdr # lo @ hi)"
    "\<forall>n\<in>set lo. n_key n < v" "\<forall>n\<in>set hi. v \<le> n_key n" "l \<le> MAX_LEVEL"
    "lo \<noteq> [] \<longrightarrow> l < lv"
    "length update = MAX_LEVEL + 1" "length spl = MAX_LEVEL + 1"
  shows "\<exists>update' spl'. for_each (down_from l) (insert_search h v)
            (last_at (Suc l) hdr lo, update, spl, int (length (pre_at (Suc l) lo)))
             = Some (last_at 0 hdr lo, update', spl', int (length lo)) \<and>
           length update' = MAX_LEVEL + 1 \<and> length spl' = MAX_LEVEL + 1 \<and>
           (\<forall>j\<le>l. update' ! j = Some (last_at j hdr lo) \<and> spl' ! j = int (length (pre_at j lo))) \<and>
           (\<forall>j>l. update' ! j = update ! j \<and> spl' ! j = spl ! j)"
  using assms(4-7)
proof (induction l arbitrary: update spl)
  case 0
  from insert_search_step[OF assms(1-3) 0(1,2,4), of update] 0(3,4)
  show ?case by simp
next
  case (Suc l)
  let ?u1 = "update[Suc l := Some (last_at (Suc l) hdr lo)]"
  let ?s1 = "spl[Suc l := int (length (pre_at (Suc l) lo))]"
  note step = insert_search_step[OF assms(1-3) Suc.prems(1,2,4), of update]
  from Suc.IH[of ?u1 ?s1] Suc.prems obtain update' spl' where
    u: "for_each (down_from l) (insert_search h v)
            (last_at (Suc l) hdr lo, ?u1, ?s1, int (length (pre_at (Suc l) lo)))
             = Some (last_at 0 hdr lo, update', spl', int (length lo))"
      "length update' = MAX_LEVEL + 1" "length spl' = MAX_LEVEL + 1"
      "\<forall>j\<le>l. update' ! j = Some (last_at j hdr lo) \<and> spl' ! j = int (length (pre_at j lo))"
      "\<forall>j>l. update' ! j = ?u1 ! j \<and> spl' ! j = ?s1 ! j"
    by auto
  have "\<forall>j\<le>Suc l. update' ! j = Some (last_at j hdr lo) \<and> spl' ! j = int (length (pre_at j lo))"
    using u(4,5) Suc.prems by (auto simp: le_Suc_eq)
  moreover have "\<forall>j>Suc l. update' ! j = update ! j \<and> spl' ! j = spl ! j" using u(5) by auto
  ultimately show ?case using step u(1-3) by simp
qed

subsection \<open>The loops of insert that write to the heap\<close>

lemma raise_loop:
  assumes "\<forall>j\<in>set js. get_link_length h hdr j \<noteq> None"
  shows "\<exists>h' update'. for_each js (insert_raise hdr n) (h, update) = Some (h', update') \<and>
     (\<forall>b. meta h' b = meta h b) \<and> (\<forall>b j. get_forward h' b j = get_forward h b j) \<and>
     (\<forall>b j. get_link_length h' b j = (if b = hdr \<and> j \<in> set js then Some n else get_link_length h b j)) \<and>
     length update' = length update \<and>
     (\<forall>j<length update. update' ! j = (if j \<in> set js then Some hdr else update ! j))"
  using assms
proof (induction js arbitrary: h update)
  case Nil
  then show ?case by simp
next
  case (Cons k js)
  from Cons.prems obtain l0 where "get_link_length h hdr k = Some l0" by auto
  from set_link_length_ok[OF this, of n] obtain h1 where h1: "set_link_length h hdr k n = Some h1"
    by blast
  note o1 = set_link_length_obs[OF h1]
  have "\<forall>j\<in>set js. get_link_length h1 hdr j \<noteq> None" using Cons.prems o1(3) by auto
  from Cons.IH[OF this, of "update[k := Some hdr]"] obtain h' update' where
    r: "for_each js (insert_raise hdr n) (h1, update[k := Some hdr]) = Some (h', update')"
      "\<forall>b. meta h' b = meta h1 b" "\<forall>b j. get_forward h' b j = get_forward h1 b j"
      "\<forall>b j. get_link_length h' b j = (if b = hdr \<and> j \<in> set js then Some n else get_link_length h1 b j)"
      "length update' = length (update[k := Some hdr])"
      "\<forall>j<length (update[k := Some hdr]). update' ! j = (if j \<in> set js then Some hdr else update[k := Some hdr] ! j)"
    by blast
  show ?case
  proof (intro exI[of _ h'] exI[of _ update'] conjI allI impI)
    show "for_each (k # js) (insert_raise hdr n) (h, update) = Some (h', update')"
      using h1 r(1) by (simp add: insert_raise_def)
    show "meta h' b = meta h b" for b using r(2) o1(1) by simp
    show "get_forward h' b j = get_forward h b j" for b j using r(3) o1(2) by simp
    show "get_link_length h' b j = (if b = hdr \<and> j \<in> set (k # js) then Some n else get_link_length h b j)" for b j
      using r(4) o1(3) by auto
    show "length update' = length update" using r(5) by simp
    show "update' ! j = (if j \<in> set (k # js) then Some hdr else update ! j)" if "j < length update" for j
      using r(6) that by (auto simp: nth_list_update)
  qed
qed

lemma insert_link_step:
  assumes "update ! i = Some u" "get_forward h u i = Some f" "get_link_length h u i = Some l"
    "get_forward h a i = Some fa" "get_link_length h a i = Some la" "u \<noteq> a"
  shows "\<exists>h'. insert_link update spl sk n a i h = Some h' \<and> (\<forall>b. meta h' b = meta h b) \<and>
     (\<forall>b j. j \<noteq> i \<longrightarrow> get_forward h' b j = get_forward h b j \<and>
                       get_link_length h' b j = get_link_length h b j) \<and>
     (\<forall>b. get_forward h' b i = (if b = a then Some f else if b = u then Some (Some a) else get_forward h b i) \<and>
          get_link_length h' b i =
            (if b = a then Some (case f of None \<Rightarrow> n - sk | Some _ \<Rightarrow> l - (sk - spl ! i))
             else if b = u then Some (sk - spl ! i + 1)
             else get_link_length h b i))"
proof -
  let ?xl = "case f of None \<Rightarrow> n - sk | Some _ \<Rightarrow> l - (sk - spl ! i)"
  from set_forward_ok[OF assms(4), of f] obtain h1 where h1: "set_forward h a i f = Some h1" by blast
  note o1 = set_forward_obs[OF h1]
  have r1: "get_forward h1 u i = Some f" "get_link_length h1 u i = Some l" "get_link_length h1 a i = Some la"
    using o1 assms by auto
  from set_link_length_ok[OF r1(3), of ?xl] obtain h2 where h2: "set_link_length h1 a i ?xl = Some h2"
    by blast
  note o2 = set_link_length_obs[OF h2]
  have r2: "get_forward h2 u i = Some f" using o2 r1 by auto
  from set_forward_ok[OF r2, of "Some a"] obtain h3 where h3: "set_forward h2 u i (Some a) = Some h3"
    by blast
  note o3 = set_forward_obs[OF h3]
  have r3: "get_link_length h3 u i = Some l" using o3 o2 r1 assms(6) by auto
  from set_link_length_ok[OF r3, of "sk - spl ! i + 1"] obtain h4 where
    h4: "set_link_length h3 u i (sk - spl ! i + 1) = Some h4" by blast
  note o4 = set_link_length_obs[OF h4]
  have "(case f of None \<Rightarrow> set_link_length h1 a i (n - sk)
         | Some _ \<Rightarrow> Option.bind (get_link_length h1 u i) (\<lambda>l. set_link_length h1 a i (l - (sk - spl ! i))))
        = Some h2"
    using h2 r1(2) by (cases f) auto
  then have "insert_link update spl sk n a i h = Some h4"
    using assms(1,2) h1 r1(1) h3 h4 by (simp add: insert_link_def Let_def)
  moreover have "\<forall>b. meta h4 b = meta h b" using o1(1) o2(1) o3(1) o4(1) by simp
  moreover have "\<forall>b j. j \<noteq> i \<longrightarrow> get_forward h4 b j = get_forward h b j \<and>
                       get_link_length h4 b j = get_link_length h b j"
    using o1(2,3) o2(2,3) o3(2,3) o4(2,3) by simp
  moreover have "\<forall>b. get_forward h4 b i = (if b = a then Some f else if b = u then Some (Some a) else get_forward h b i)"
    using o1(2) o2(2) o3(2) o4(2) assms(6) by simp
  moreover have "\<forall>b. get_link_length h4 b i =
            (if b = a then Some ?xl else if b = u then Some (sk - spl ! i + 1) else get_link_length h b i)"
    using o1(3) o2(3) o3(3) o4(3) assms(6) by simp
  ultimately show ?thesis by blast
qed

lemma insert_bump_step:
  assumes "update ! i = Some u" "get_link_length h u i = Some l"
  shows "\<exists>h'. insert_bump update i h = Some h' \<and> (\<forall>b. meta h' b = meta h b) \<and>
     (\<forall>b j. j \<noteq> i \<longrightarrow> get_forward h' b j = get_forward h b j \<and>
                       get_link_length h' b j = get_link_length h b j) \<and>
     (\<forall>b. get_forward h' b i = get_forward h b i \<and>
          get_link_length h' b i = (if b = u then Some (l + 1) else get_link_length h b i))"
proof -
  from set_link_length_ok[OF assms(2), of "l + 1"] obtain h' where
    h': "set_link_length h u i (l + 1) = Some h'" by blast
  note o = set_link_length_obs[OF h']
  have "insert_bump update i h = Some h'" using assms h' by (simp add: insert_bump_def)
  then show ?thesis using o by auto
qed

lemma span_at_None: "first_at i xs = None \<Longrightarrow> span_at i xs = int (length xs) + 1"
  by (induction xs) (auto split: if_splits)

lemma suf_at_app_high: "i \<le> n_lvl nd \<Longrightarrow> (\<forall>n\<in>set r. n_lvl n < i) \<Longrightarrow> suf_at i (p @ nd # r) = r"
  unfolding suf_at_def by (simp, subst takeWhile_append2) auto

lemma suf_at_all_low: "(\<forall>n\<in>set r. n_lvl n < i) \<Longrightarrow> suf_at i r = r"
  by (simp add: suf_at_def takeWhile_eq_all_conv[THEN iffD2])

lemma upd_char2:
  assumes "hnode hdr # lo = p @ nd # r" "i \<le> n_lvl nd" "first_at i r = None"
  shows "suf_at i lo = r"
proof (cases p)
  case Nil
  with assms show ?thesis by (simp add: suf_at_all_low first_at_None)
next
  case (Cons x p')
  with assms have "lo = p' @ nd # r" by simp
  with assms show ?thesis by (simp add: suf_at_app_high first_at_None)
qed

lemma alloc_obs:
  "meta (h(a \<mapsto> Entry_new lvl v p)) b = (if b = a then Some (v, p, lvl + 1, lvl + 1) else meta h b)"
  "get_forward (h(a \<mapsto> Entry_new lvl v p)) b j =
     (if b = a then (if j \<le> lvl then Some None else None) else get_forward h b j)"
  "get_link_length (h(a \<mapsto> Entry_new lvl v p)) b j =
     (if b = a then (if j \<le> lvl then Some 0 else None) else get_link_length h b j)"
  by (auto simp: meta_def get_forward_def get_link_length_def Entry_new_def nth_Cons split: nat.splits)

lemma meta_link_slot:
  "meta h b = Some (k, ob, nf, nl) \<Longrightarrow> j < nl \<Longrightarrow> get_link_length h b j \<noteq> None"
  by (auto simp: meta_def get_link_length_def)

lemma upd_link_defined:
  assumes "chain_ok h lv (hnode hdr # lo @ hi)" "i \<le> MAX_LEVEL"
  shows "get_link_length h (last_at i hdr lo) i \<noteq> None"
proof -
  from upd_node[OF assms(1), of i] obtain nd where
    nd: "n_addr nd = last_at i hdr lo" "node_ok h lv nd (suf_at i lo @ hi)"
      "nd = hnode hdr \<or> i \<le> n_lvl nd" by blast
  then have "i \<le> n_lvl nd" using assms(2) by (auto simp: hnode_def)
  with nd(1,2) show ?thesis
    by (auto simp: node_ok_def get_link_length_def)
qed

lemma insert_new:
  fixes s :: "'a ObjectStore"
  assumes inv: "store_inv fr s (lo @ hi)" and lo: "\<forall>n\<in>set lo. n_key n < v"
    and hi: "\<forall>n\<in>set hi. v < n_key n" and lvl: "lvl \<le> MAX_LEVEL" and fresh: "a \<notin> dom (heap s)"
  shows "\<exists>s'. ObjectStore_insert s v p lvl a = Some s' \<and>
           store_inv False s' (lo @ \<lparr>n_addr = a, n_key = v, n_obj = p, n_lvl = lvl\<rparr> # hi) \<and>
           header s' = header s \<and> dom (heap s') \<subseteq> insert a (dom (heap s))"
proof -
  define h where "h = heap s"
  define hdr where "hdr = header s"
  define L where "L = level s"
  define L1 where "L1 = (if lvl > L then lvl else L)"
  define n where "n = num_entries s + 1"
  define sk where "sk = int (length lo)"
  define U where "U = (\<lambda>j. last_at j hdr lo)"
  define nw :: "'a snode" where "nw = \<lparr>n_addr = a, n_key = v, n_obj = p, n_lvl = lvl\<rparr>"
  let ?H = "hnode hdr :: 'a snode"
  define K where "K = link_bound fr s"
  from inv have frz: "fr \<Longrightarrow> lo = [] \<and> hi = [] \<and> L = 0"
    by (auto simp: store_inv_def L_def)
  have KL: "K = Suc L" if "\<not> fr" using that by (simp add: K_def link_bound_def L_def)
  from inv have ch: "chain_ok h K (?H # lo @ hi)"
    and dist: "distinct (map n_addr (?H # lo @ hi))"
    and srt: "sorted_wrt (<) (map n_key (lo @ hi))"
    and lv: "\<forall>nd\<in>set (lo @ hi). n_lvl nd \<le> L"
    and mx: "L \<le> MAX_LEVEL" and nn: "num_entries s = int (length (lo @ hi))"
    unfolding store_inv_def h_def hdr_def L_def K_def by auto
  have hi': "\<forall>n\<in>set hi. v \<le> n_key n" using hi by auto
  have chi: "chain_ok h K hi" using ch chain_ok_append[of h K "?H # lo" hi] by simp
  have LK: "lo \<noteq> [] \<longrightarrow> L < K" using frz KL by auto
  have a_notin: "a \<notin> n_addr ` set (?H # lo @ hi)"
  proof
    assume "a \<in> n_addr ` set (?H # lo @ hi)"
    then obtain nd where "nd \<in> set (?H # lo @ hi)" "n_addr nd = a" by auto
    with chain_ok_mem[OF ch] have "h a \<noteq> None" by auto
    with fresh show False by (auto simp: h_def)
  qed
  have U_in: "U j \<in> n_addr ` set (?H # lo)" if "j \<le> MAX_LEVEL" for j
    unfolding U_def by (rule upd_in_prefix[OF that])
  have U_ne: "U j \<noteq> a" if "j \<le> MAX_LEVEL" for j using U_in[OF that] a_notin by auto
  have "n_addr ` set (?H # lo) \<inter> n_addr ` set hi = {}" using dist by auto
  then have hi_notin: "b \<notin> n_addr ` set (?H # lo)" if "b \<in> n_addr ` set hi" for b
    using that by blast
  have lo_low: "\<forall>m\<in>set lo. n_lvl m < j" if "L < j" for j
  proof
    fix m assume "m \<in> set lo"
    with lv have "n_lvl m \<le> L" by auto
    with that show "n_lvl m < j" by simp
  qed
  have U_hdr: "U j = hdr" if "L < j" for j
    unfolding U_def by (rule last_at_low[OF lo_low[OF that]])
  have pre_high: "pre_at j lo = []" if "L < j" for j
    by (rule pre_at_all_low[OF lo_low[OF that]])
  \<comment> \<open>the search\<close>
  from descend_insert[OF ch lo hi' mx LK, of "replicate (MAX_LEVEL + 1) None"
      "replicate (MAX_LEVEL + 1) 0"] U_hdr[of "Suc L"] pre_high[of "Suc L"]
  obtain update spl where
    srch: "for_each (down_from L) (insert_search h v)
             (hdr, replicate (MAX_LEVEL + 1) None, replicate (MAX_LEVEL + 1) 0, 0)
             = Some (U 0, update, spl, sk)"
    and len: "length update = MAX_LEVEL + 1" "length spl = MAX_LEVEL + 1"
    and upd: "\<forall>j\<le>L. update ! j = Some (U j) \<and> spl ! j = int (length (pre_at j lo))"
    and rest: "\<forall>j>L. spl ! j = replicate (MAX_LEVEL + 1) (0::int) ! j"
    unfolding U_def sk_def by auto
  have spl: "spl ! j = int (length (pre_at j lo))" if "j \<le> MAX_LEVEL" for j
  proof (cases "j \<le> L")
    case True
    with upd show ?thesis by simp
  next
    case False
    with rest that pre_high[of j] show ?thesis by simp
  qed
  have off: "sk - spl ! j = int (length (suf_at j lo))" if "j \<le> MAX_LEVEL" for j
  proof -
    have "length lo = length (pre_at j lo) + length (suf_at j lo)"
      by (metis length_append pre_suf)
    then show ?thesis using spl[OF that] by (simp add: sk_def)
  qed
  have x0: "get_forward h (U 0) 0 = Some (first_at 0 hi)"
    using upd_forward[OF ch, of 0 0] by (simp add: U_def)
  have fnd: "(case first_at 0 hi of None \<Rightarrow> Some False
              | Some y \<Rightarrow> map_option (\<lambda>e. entry_value e = v) (h y)) = Some False"
  proof (cases hi)
    case Nil
    then show ?thesis by simp
  next
    case (Cons m hi')
    with chain_ok_mem[OF chi, of m] obtain e where "h (n_addr m) = Some e" "entry_value e = n_key m"
      by auto
    with Cons hi show ?thesis by auto
  qed
  \<comment> \<open>values read from the predecessors\<close>
  have Uf: "get_forward h (U i) i = Some (first_at i hi)" if "i \<le> MAX_LEVEL" for i
    using upd_forward[OF ch order_refl that] by (simp add: U_def first_at_append)
  have Ul: "get_link_length h (U i) i = Some (span_at i (suf_at i lo @ hi))" if "i \<le> L" "\<not> fr" for i
    unfolding U_def using that mx KL by (intro upd_link[OF ch order_refl]) auto
  have Ud: "get_link_length h (U i) i \<noteq> None" if "i \<le> MAX_LEVEL" for i
    unfolding U_def by (rule upd_link_defined[OF ch that])
  have hdr_meta: "meta h hdr = Some (0, None, MAX_LEVEL + 1, MAX_LEVEL + 1)"
    using ch by (simp add: node_ok_slots hnode_def)
  \<comment> \<open>raising the level\<close>
  have "\<exists>h1 update1.
      (if lvl > L then for_each [L + 1..<lvl + 1] (insert_raise hdr n) (h, update)
       else Some (h, update)) = Some (h1, update1) \<and>
      (\<forall>b. meta h1 b = meta h b) \<and> (\<forall>b j. get_forward h1 b j = get_forward h b j) \<and>
      (\<forall>b j. get_link_length h1 b j =
          (if b = hdr \<and> L < j \<and> j \<le> lvl then Some n else get_link_length h b j)) \<and>
      (\<forall>j\<le>MAX_LEVEL. update1 ! j = (if L < j \<and> j \<le> lvl then Some hdr else update ! j))"
  proof (cases "lvl > L")
    case False
    then show ?thesis by auto
  next
    case True
    have "\<forall>j\<in>set [L + 1..<lvl + 1]. get_link_length h hdr j \<noteq> None"
      using meta_link_slot[OF hdr_meta] lvl by auto
    from raise_loop[OF this, of n update] len True show ?thesis
      by (auto simp: less_Suc_eq_le Suc_le_eq)
  qed
  then obtain h1 update1 where
    r1: "(if lvl > L then for_each [L + 1..<lvl + 1] (insert_raise hdr n) (h, update)
       else Some (h, update)) = Some (h1, update1)"
    and m1: "\<And>b. meta h1 b = meta h b" and f1: "\<And>b j. get_forward h1 b j = get_forward h b j"
    and l1: "\<And>b j. get_link_length h1 b j =
          (if b = hdr \<and> L < j \<and> j \<le> lvl then Some n else get_link_length h b j)"
    and u1: "\<And>j. j \<le> MAX_LEVEL \<Longrightarrow> update1 ! j = (if L < j \<and> j \<le> lvl then Some hdr else update ! j)"
    by blast
  have upd1: "update1 ! j = Some (U j)" if "j \<le> L1" for j
  proof -
    have jm: "j \<le> MAX_LEVEL" using that lvl mx by (auto simp: L1_def split: if_splits)
    show ?thesis
    proof (cases "j \<le> L")
      case True
      with u1[OF jm] upd show ?thesis by simp
    next
      case False
      with that have "L < j" "j \<le> lvl" by (auto simp: L1_def split: if_splits)
      with u1[OF jm] U_hdr[of j] show ?thesis by simp
    qed
  qed
  \<comment> \<open>the new entry\<close>
  define h2 where "h2 = h1(a \<mapsto> Entry_new lvl v p)"
  note o2 = alloc_obs[of h1 a lvl v p, folded h2_def]
  \<comment> \<open>linking the new entry in\<close>
  define lnk where "lnk = (\<lambda>i. if i \<le> L then the (get_link_length h (U i) i) else n)"
  define nF where "nF = (\<lambda>i b. if b = a then Some (first_at i hi)
                               else if b = U i then Some (Some a) else get_forward h2 b i)"
  define nL where "nL = (\<lambda>i b. if b = a then Some (span_at i hi)
                               else if b = U i then Some (int (length (suf_at i lo)) + 1)
                               else get_link_length h2 b i)"
  have "\<exists>h3. for_each [0..<lvl + 1] (insert_link update1 spl sk n a) h2 = Some h3 \<and>
        (\<forall>b. meta h3 b = meta h2 b) \<and>
        (\<forall>b j. get_forward h3 b j = (if j \<in> set [0..<lvl + 1] then nF j b else get_forward h2 b j)) \<and>
        (\<forall>b j. get_link_length h3 b j = (if j \<in> set [0..<lvl + 1] then nL j b else get_link_length h2 b j))"
  proof (rule for_each_slotwise)
    fix i and g :: "'a heap"
    assume i: "i \<in> set [0..<lvl + 1]"
      and same: "\<forall>b. get_forward g b i = get_forward h2 b i \<and> get_link_length g b i = get_link_length h2 b i"
    from i have il: "i \<le> lvl" and iM: "i \<le> MAX_LEVEL" and i1: "i \<le> L1"
      using lvl by (auto simp: L1_def)
    note ne = U_ne[OF iM]
    have 1: "update1 ! i = Some (U i)" by (rule upd1[OF i1])
    have 2: "get_forward g (U i) i = Some (first_at i hi)"
      using same o2(2) f1 Uf[OF iM] ne by simp
    have 3: "get_link_length g (U i) i = Some (lnk i)"
    proof (cases "i \<le> L")
      case True
      with same o2(3) l1 Ud[OF iM] ne show ?thesis by (auto simp: lnk_def)
    next
      case False
      with same o2(3) l1 U_hdr[of i] ne il show ?thesis by (simp add: lnk_def)
    qed
    have 4: "get_forward g a i = Some None" using same o2(2) il by simp
    have 5: "get_link_length g a i = Some 0" using same o2(3) il by simp
    have xl: "(case first_at i hi of None \<Rightarrow> n - sk | Some _ \<Rightarrow> lnk i - (sk - spl ! i)) = span_at i hi"
    proof (cases "first_at i hi")
      case None
      then show ?thesis using nn by (simp add: span_at_None n_def sk_def)
    next
      case (Some z)
      then obtain m where "m \<in> set hi" "i \<le> n_lvl m" by (blast dest: first_at_Some)
      with lv have "i \<le> L" by force
      moreover from Some have "\<not> fr" using frz by auto
      ultimately show ?thesis using Some off[OF iM] Ul[of i]
        by (simp add: lnk_def span_at_append)
    qed
    from insert_link_step[OF 1 2 3 4 5 ne, of spl sk n]
    show "\<exists>h'. insert_link update1 spl sk n a i g = Some h' \<and> (\<forall>b. meta h' b = meta g b) \<and>
        (\<forall>b j. j \<noteq> i \<longrightarrow> get_forward h' b j = get_forward g b j \<and>
                          get_link_length h' b j = get_link_length g b j) \<and>
        (\<forall>b. get_forward h' b i = nF i b \<and> get_link_length h' b i = nL i b)"
      using same off[OF iM] unfolding nF_def nL_def xl by auto
  qed simp
  then obtain h3 where loop3: "for_each [0..<lvl + 1] (insert_link update1 spl sk n a) h2 = Some h3"
    and m3: "\<And>b. meta h3 b = meta h2 b"
    and f3: "\<And>b j. get_forward h3 b j = (if j \<le> lvl then nF j b else get_forward h2 b j)"
    and l3: "\<And>b j. get_link_length h3 b j = (if j \<le> lvl then nL j b else get_link_length h2 b j)"
    by (auto simp: less_Suc_eq_le)
  \<comment> \<open>the links that pass over the new entry\<close>
  define bL where "bL = (\<lambda>i b. if b = U i then Some (span_at i (suf_at i lo @ hi) + 1)
                               else get_link_length h3 b i)"
  have mem4: "\<And>j. (j \<in> set [lvl + 1..<L1 + 1]) = (lvl < j \<and> j \<le> L1)" by auto
  have ex4: "\<exists>h4. for_each [lvl + 1..<L1 + 1] (insert_bump update1) h3 = Some h4 \<and>
        (\<forall>b. meta h4 b = meta h3 b) \<and>
        (\<forall>b j. get_forward h4 b j =
            (if j \<in> set [lvl + 1..<L1 + 1] then get_forward h3 b j else get_forward h3 b j)) \<and>
        (\<forall>b j. get_link_length h4 b j =
            (if j \<in> set [lvl + 1..<L1 + 1] then bL j b else get_link_length h3 b j))"
  proof (rule for_each_slotwise)
    fix i and g :: "'a heap"
    assume i: "i \<in> set [lvl + 1..<L1 + 1]"
      and same: "\<forall>b. get_forward g b i = get_forward h3 b i \<and> get_link_length g b i = get_link_length h3 b i"
    from i have il: "lvl < i" and i1: "i \<le> L1" by auto
    then have iL: "i \<le> L" by (auto simp: L1_def split: if_splits)
    then have iM: "i \<le> MAX_LEVEL" using mx by simp
    have nfr: "\<not> fr" using frz il iL by auto
    have 1: "update1 ! i = Some (U i)" by (rule upd1[OF i1])
    have 2: "get_link_length g (U i) i = Some (span_at i (suf_at i lo @ hi))"
      using same l3 o2(3) l1 Ul[OF iL nfr] U_ne[OF iM] il iL by simp
    from insert_bump_step[OF 1 2]
    show "\<exists>h'. insert_bump update1 i g = Some h' \<and> (\<forall>b. meta h' b = meta g b) \<and>
        (\<forall>b j. j \<noteq> i \<longrightarrow> get_forward h' b j = get_forward g b j \<and>
                          get_link_length h' b j = get_link_length g b j) \<and>
        (\<forall>b. get_forward h' b i = get_forward h3 b i \<and> get_link_length h' b i = bL i b)"
      using same unfolding bL_def by auto
  qed simp
  from ex4[unfolded mem4 if_cancel]
  obtain h4 where loop4: "for_each [lvl + 1..<L1 + 1] (insert_bump update1) h3 = Some h4"
    and m4: "\<And>b. meta h4 b = meta h3 b"
    and f4: "\<And>b j. get_forward h4 b j = get_forward h3 b j"
    and l4: "\<And>b j. get_link_length h4 b j = (if lvl < j \<and> j \<le> L1 then bL j b else get_link_length h3 b j)"
    by blast
  \<comment> \<open>the final heap, seen from the old one\<close>
  have M4: "meta h4 b = meta h b" if "b \<noteq> a" for b
    using that m4 m3 o2(1) m1 by simp
  have F4: "get_forward h4 b j = (if j \<le> lvl \<and> b = U j then Some (Some a) else get_forward h b j)"
    if "b \<noteq> a" for b j
    using that f4 f3 o2(2) f1 by (simp add: nF_def)
  have L4: "get_link_length h4 b j =
      (if j \<le> lvl \<and> b = U j then Some (int (length (suf_at j lo)) + 1)
       else if lvl < j \<and> j \<le> L \<and> b = U j then map_option (\<lambda>l. l + 1) (get_link_length h b j)
       else get_link_length h b j)"
    if "b \<noteq> a" "j \<le> L1" for b j
  proof (cases "j \<le> lvl")
    case True
    show ?thesis
    proof (cases "b = U j")
      case True
      with \<open>j \<le> lvl\<close> that show ?thesis using l4[of b j] l3[of b j] by (simp add: nL_def)
    next
      case False
      then have "\<not> (b = hdr \<and> L < j)" using U_hdr[of j] by auto
      with False \<open>j \<le> lvl\<close> that show ?thesis
        using l4[of b j] l3[of b j] o2(3)[of b j] l1[of b j] by (auto simp: nL_def)
    qed
  next
    case False
    with that(2) have jL: "j \<le> L" "lvl < j" by (auto simp: L1_def split: if_splits)
    then have nfr: "\<not> fr" using frz by auto
    show ?thesis
    proof (cases "b = U j")
      case True
      with jL that Ul[OF jL(1) nfr] show ?thesis
        using l4[of b j] by (simp add: bL_def)
    next
      case False
      with jL that show ?thesis
        using l4[of b j] l3[of b j] o2(3)[of b j] l1[of b j] by (simp add: bL_def)
    qed
  qed
  have Ma: "meta h4 a = Some (v, p, lvl + 1, lvl + 1)" using m4 m3 o2(1) by simp
  have Fa: "get_forward h4 a j = Some (first_at j hi)" if "j \<le> lvl" for j
    using that f4 f3 by (simp add: nF_def)
  have La: "get_link_length h4 a j = Some (span_at j hi)" if "j \<le> lvl" for j
    using that l4[of a j] l3[of a j] by (simp add: nL_def)
  \<comment> \<open>the chain with the new entry\<close>
  have lvL1: "lvl \<le> L1" "L \<le> L1" "L1 \<le> MAX_LEVEL" using lvl mx by (auto simp: L1_def)
  have ch4: "chain_ok h4 (Suc L1) ((?H # lo) @ nw # hi)"
  proof (rule chain_ok_prefixI)
    have "chain_ok h4 (Suc L1) hi"
    proof (rule chain_ok_frame[OF chi])
      have "n_lvl m < K" if "m \<in> set hi" for m
      proof -
        from that have "\<not> fr" using frz by auto
        moreover from that lv have "n_lvl m \<le> L" by auto
        ultimately show ?thesis using KL by simp
      qed
      then show "Suc L1 \<le> K \<or> (\<forall>n\<in>set hi. n_lvl n < K)" by auto
    next
      fix b assume b: "b \<in> n_addr ` set hi"
      then have ba: "b \<noteq> a" using a_notin by auto
      have bU: "b \<noteq> U j" if "j \<le> MAX_LEVEL" for j using U_in[OF that] hi_notin[OF b] by auto
      show "meta h4 b = meta h b" by (rule M4[OF ba])
      show "get_forward h4 b j = get_forward h b j" for j
        using F4[OF ba, of j] bU[of j] lvl by auto
      show "get_link_length h4 b j = get_link_length h b j" for j
      proof (cases "j \<le> L1")
        case True
        with L4[OF ba True] bU[of j] lvL1 show ?thesis by auto
      next
        case False
        with l4[of b j] l3[of b j] o2(3)[of b j] l1[of b j] ba lvL1 show ?thesis by auto
      qed
    qed
    moreover have "node_ok h4 (Suc L1) nw hi"
      unfolding node_ok_slots using Ma Fa La by (simp add: nw_def)
    ultimately show "chain_ok h4 (Suc L1) (nw # hi)" by simp
  next
    fix pp nd r assume dec: "?H # lo = pp @ nd # r"
    then have "?H # lo @ hi = pp @ nd # (r @ hi)" by (metis append_Cons append_assoc)
    with ch have ok: "node_ok h K nd (r @ hi)" by (metis chain_ok_mid)
    have nd_in: "n_addr nd \<in> n_addr ` set (?H # lo)" unfolding dec by simp
    then have ba: "n_addr nd \<noteq> a" using a_notin by auto
    have r_lo: "set r \<subseteq> set lo" using dec by (cases pp) auto
    have r_lv: "\<forall>m\<in>set r. n_lvl m \<le> L" using r_lo lv by auto
    have nd_lv: "n_lvl nd \<le> MAX_LEVEL"
      using dec lv mx by (cases pp) (auto simp: hnode_def)
    from dist have dist': "distinct (map n_addr (?H # lo))" by simp
    show "node_ok h4 (Suc L1) nd (r @ nw # hi)"
      unfolding node_ok_slots
    proof (intro conjI allI impI)
      show "meta h4 (n_addr nd) = Some (n_key nd, n_obj nd, n_lvl nd + 1, n_lvl nd + 1)"
        using ok M4[OF ba] by (simp add: node_ok_slots)
    next
      fix i assume i: "i \<le> n_lvl nd"
      then have iM: "i \<le> MAX_LEVEL" using nd_lv by simp
      have of: "get_forward h (n_addr nd) i = Some (first_at i (r @ hi))"
        by (rule node_ok_forward[OF ok i])
      have uc: "(n_addr nd = U i) = (first_at i r = None)"
        unfolding U_def by (rule upd_char[OF dec i iM dist'])
      show "get_forward h4 (n_addr nd) i = Some (first_at i (r @ nw # hi))"
      proof (cases "first_at i r")
        case (Some z)
        with uc of F4[OF ba, of i] show ?thesis by (simp add: first_at_append)
      next
        case None
        with uc of F4[OF ba, of i] show ?thesis by (simp add: first_at_append nw_def)
      qed
      assume "i < Suc L1"
      then have iL1: "i \<le> L1" by simp
      show "get_link_length h4 (n_addr nd) i = Some (span_at i (r @ nw # hi))"
      proof (cases "first_at i r")
        case (Some z)
        then obtain m where m: "m \<in> set r" "i \<le> n_lvl m" by (blast dest: first_at_Some)
        with r_lv have iL: "i \<le> L" by force
        from m r_lo have "\<not> fr" using frz by auto
        then have "i < K" using iL KL by simp
        from node_ok_link[OF ok i this] Some uc L4[OF ba iL1] show ?thesis
          by (simp add: span_at_append)
      next
        case None
        with uc have u: "n_addr nd = U i" by simp
        from upd_char2[OF dec i None] have sr: "suf_at i lo = r" .
        show ?thesis
        proof (cases "i \<le> lvl")
          case True
          with L4[OF ba iL1] u None sr show ?thesis by (simp add: span_at_append nw_def)
        next
          case False
          with iL1 have iL: "i \<le> L" by (auto simp: L1_def split: if_splits)
          with False have "\<not> fr" using frz by auto
          then have "i < K" using iL KL by simp
          from node_ok_link[OF ok i this] False iL L4[OF ba iL1] u None show ?thesis
            by (simp add: span_at_append nw_def)
        qed
      qed
    qed
  qed
  define s' where "s' = s\<lparr>heap := h4, level := L1, num_entries := n\<rparr>"
  have "ObjectStore_insert s v p lvl a = Some s'"
    using srch x0 fnd r1 loop3 loop4
    unfolding ObjectStore_insert_def s'_def h_def hdr_def L_def L1_def n_def h2_def
    by (simp add: Let_def)
  moreover have "\<forall>nd\<in>set (lo @ nw # hi). n_lvl nd \<le> L1"
  proof
    fix nd assume "nd \<in> set (lo @ nw # hi)"
    then consider "nd = nw" | "nd \<in> set (lo @ hi)" by auto
    then show "n_lvl nd \<le> L1"
    proof cases
      case 1
      then show ?thesis using lvL1 by (simp add: nw_def)
    next
      case 2
      with lv have "n_lvl nd \<le> L" by blast
      then show ?thesis using lvL1 by simp
    qed
  qed
  moreover have "distinct (map n_addr (?H # lo @ nw # hi))"
    using dist a_notin by (auto simp: nw_def)
  moreover have "sorted_wrt (<) (map n_key (lo @ nw # hi))"
    using srt lo hi by (auto simp: sorted_wrt_append nw_def)
  moreover have "n = int (length (lo @ nw # hi))" using nn by (simp add: n_def)
  ultimately have "ObjectStore_insert s v p lvl a = Some s'" "store_inv False s' (lo @ nw # hi)"
    unfolding store_inv_def s'_def link_bound_def
    using ch4 lvL1 by (simp_all add: hdr_def)
  moreover have "dom h4 \<subseteq> insert a (dom h)" using M4 by (rule meta_dom)
  ultimately show ?thesis by (auto simp: s'_def nw_def h_def)
qed

lemma first_at_set_obj [simp]:
  "first_at i (xs @ xn\<lparr>n_obj := p\<rparr> # ys) = first_at i (xs @ xn # ys)"
  by (induction xs) auto

lemma span_at_set_obj [simp]:
  "span_at i (xs @ xn\<lparr>n_obj := p\<rparr> # ys) = span_at i (xs @ xn # ys)"
  by (induction xs) auto

lemma chain_ok_set_obj:
  assumes "chain_ok h lv (xs @ xn # ys)" "distinct (map n_addr (xs @ xn # ys))"
    "h (n_addr xn) = Some e"
  shows "chain_ok (h(n_addr xn \<mapsto> e\<lparr>obj_ptr := p\<rparr>)) lv (xs @ xn\<lparr>n_obj := p\<rparr> # ys)"
  using assms(1,2)
proof (induction xs)
  case Nil
  let ?h = "h(n_addr xn \<mapsto> e\<lparr>obj_ptr := p\<rparr>)"
  from Nil have ok: "node_ok h lv xn ys" and ch: "chain_ok h lv ys" by auto
  have "chain_ok ?h lv ys"
  proof (rule chain_ok_frame[OF ch])
    fix b assume "b \<in> n_addr ` set ys"
    moreover from Nil(2) have "n_addr xn \<notin> n_addr ` set ys" by simp
    ultimately have "b \<noteq> n_addr xn" by blast
    then show "meta ?h b = meta h b" "\<And>j. get_forward ?h b j = get_forward h b j"
      "\<And>j. get_link_length ?h b j = get_link_length h b j"
      by (simp_all add: meta_def get_forward_def get_link_length_def)
  qed simp
  moreover have "node_ok ?h lv (xn\<lparr>n_obj := p\<rparr>) ys"
    using ok assms(3) by (auto simp: node_ok_def)
  ultimately show ?case by (simp add: fun_upd_def)
next
  case (Cons x xs)
  let ?h = "h(n_addr xn \<mapsto> e\<lparr>obj_ptr := p\<rparr>)"
  from Cons.prems have ok: "node_ok h lv x (xs @ xn # ys)" and ne: "n_addr x \<noteq> n_addr xn" by auto
  have "node_ok ?h lv x (xs @ xn\<lparr>n_obj := p\<rparr> # ys)"
    using ok ne by (simp add: node_ok_def)
  moreover have "chain_ok ?h lv (xs @ xn\<lparr>n_obj := p\<rparr> # ys)"
    using Cons.prems by (intro Cons.IH) auto
  ultimately show ?case by (simp add: fun_upd_def)
qed

lemma insert_existing:
  fixes s :: "'a ObjectStore"
  assumes inv: "store_inv fr s (lo @ xn # hi')" and lo: "\<forall>n\<in>set lo. n_key n < v" and xn: "n_key xn = v"
  shows "\<exists>e. heap s (n_addr xn) = Some e \<and> entry_value e = v \<and>
           ObjectStore_insert s v p lvl a = Some (s\<lparr>heap := (heap s)(n_addr xn \<mapsto> e\<lparr>obj_ptr := p\<rparr>)\<rparr>) \<and>
           store_inv fr (s\<lparr>heap := (heap s)(n_addr xn \<mapsto> e\<lparr>obj_ptr := p\<rparr>)\<rparr>) (lo @ xn\<lparr>n_obj := p\<rparr> # hi')"
proof -
  define h where "h = heap s"
  define hdr where "hdr = header s"
  define L where "L = level s"
  define K where "K = link_bound fr s"
  define U where "U = (\<lambda>j. last_at j hdr lo)"
  let ?hi = "xn # hi'"
  let ?H = "hnode hdr :: 'a snode"
  from inv have nfr: "\<not> fr" by (auto simp: store_inv_def)
  then have KL: "K = Suc L" by (simp add: K_def link_bound_def L_def)
  from inv have ch: "chain_ok h K (?H # lo @ ?hi)"
    and dist: "distinct (map n_addr (?H # lo @ ?hi))"
    and srt: "sorted_wrt (<) (map n_key (lo @ ?hi))"
    and lv: "\<forall>nd\<in>set (lo @ ?hi). n_lvl nd \<le> L"
    and mx: "L \<le> MAX_LEVEL" and nn: "num_entries s = int (length (lo @ ?hi))"
    unfolding store_inv_def h_def hdr_def L_def K_def by auto
  have hi: "\<forall>n\<in>set ?hi. v \<le> n_key n" using srt xn by (auto simp: sorted_wrt_append)
  have lo_low: "\<forall>m\<in>set lo. n_lvl m < j" if "L < j" for j
  proof
    fix m assume "m \<in> set lo"
    with lv have "n_lvl m \<le> L" by auto
    with that show "n_lvl m < j" by simp
  qed
  have U_hdr: "U (Suc L) = hdr"
    unfolding U_def by (rule last_at_low[OF lo_low]) simp
  have pre_high: "pre_at (Suc L) lo = []"
    by (rule pre_at_all_low[OF lo_low]) simp
  have LK: "lo \<noteq> [] \<longrightarrow> L < K" using KL by simp
  from descend_insert[OF ch lo hi mx LK, of "replicate (MAX_LEVEL + 1) None"
      "replicate (MAX_LEVEL + 1) 0"] U_hdr pre_high
  obtain update spl where
    srch: "for_each (down_from L) (insert_search h v)
             (hdr, replicate (MAX_LEVEL + 1) None, replicate (MAX_LEVEL + 1) 0, 0)
             = Some (U 0, update, spl, int (length lo))"
    unfolding U_def by auto
  have x0: "get_forward h (U 0) 0 = Some (Some (n_addr xn))"
    using upd_forward[OF ch, of 0 0] by (simp add: U_def)
  have "xn \<in> set (?H # lo @ ?hi)" by simp
  from chain_ok_mem[OF ch this] obtain e where e: "h (n_addr xn) = Some e" "entry_value e = v"
    using xn by auto
  define s' where "s' = s\<lparr>heap := h(n_addr xn \<mapsto> e\<lparr>obj_ptr := p\<rparr>)\<rparr>"
  have "ObjectStore_insert s v p lvl a = Some s'"
    using srch x0 e
    unfolding ObjectStore_insert_def s'_def h_def hdr_def L_def
    by (simp add: Let_def)
  moreover have "chain_ok (h(n_addr xn \<mapsto> e\<lparr>obj_ptr := p\<rparr>)) K ((?H # lo) @ xn\<lparr>n_obj := p\<rparr> # hi')"
    using ch dist by (intro chain_ok_set_obj e) auto
  then have "store_inv fr s' (lo @ xn\<lparr>n_obj := p\<rparr> # hi')"
    unfolding store_inv_def s'_def
    using dist srt lv mx nn nfr
    by (auto simp: hdr_def sorted_wrt_append link_bound_def K_def L_def)
  ultimately show ?thesis using e unfolding s'_def h_def by blast
qed

lemma amap_insert:
  assumes "\<forall>n\<in>set lo. n_key n < v" "n_key nw = v"
  shows "amap (lo @ nw # hi) = (amap (lo @ hi))(v \<mapsto> n_obj nw)"
proof (rule ext)
  fix k
  from assms have "v \<notin> n_key ` set lo" by auto
  then have "map_of (map (\<lambda>n. (n_key n, n_obj n)) lo) v = None"
    by (simp add: map_of_eq_None_iff image_image)
  then show "amap (lo @ nw # hi) k = ((amap (lo @ hi))(v \<mapsto> n_obj nw)) k"
    using assms(2) by (auto simp: amap_def map_add_def split: option.splits)
qed

lemma amap_update:
  assumes "\<forall>n\<in>set lo. n_key n < n_key xn"
  shows "amap (lo @ xn\<lparr>n_obj := p\<rparr> # hi') = (amap (lo @ xn # hi'))(n_key xn \<mapsto> p)"
proof (rule ext)
  fix k
  from assms have "n_key xn \<notin> n_key ` set lo" by auto
  then have "map_of (map (\<lambda>n. (n_key n, n_obj n)) lo) (n_key xn) = None"
    by (simp add: map_of_eq_None_iff image_image)
  then show "amap (lo @ xn\<lparr>n_obj := p\<rparr> # hi') k = ((amap (lo @ xn # hi'))(n_key xn \<mapsto> p)) k"
    by (auto simp: amap_def map_add_def split: option.splits)
qed

lemma insert_inv:
  assumes "store_inv fr s ns" "lvl \<le> MAX_LEVEL" "a \<notin> dom (heap s)"
  shows "\<exists>s' ns'. ObjectStore_insert s v p lvl a = Some s' \<and> store_inv False s' ns' \<and>
           amap ns' = (amap ns)(v \<mapsto> p) \<and> header s' = header s \<and>
           dom (heap s') \<subseteq> insert a (dom (heap s)) \<and>
           (amap ns v \<noteq> None \<longrightarrow>
              (\<exists>y e. heap s y = Some e \<and> entry_value e = v \<and>
                     s' = s\<lparr>heap := (heap s)(y \<mapsto> e\<lparr>obj_ptr := p\<rparr>)\<rparr>))"
proof -
  let ?lo = "takeWhile (\<lambda>n. n_key n < v) ns"
  let ?hi = "dropWhile (\<lambda>n. n_key n < v) ns"
  from assms have srt: "sorted_wrt (<) (map n_key ns)" by (simp add: store_inv_def)
  have lo: "\<forall>n\<in>set ?lo. n_key n < v" by (auto dest: set_takeWhileD)
  have hi: "\<forall>n\<in>set ?hi. v \<le> n_key n" using hi_keys[OF srt] by auto
  have split: "?lo @ ?hi = ns" by simp
  show ?thesis
  proof (cases "amap ns v")
    case None
    have "v \<notin> n_key ` set ns"
      using None by (simp add: amap_def map_of_eq_None_iff image_image)
    then have "\<forall>n\<in>set ?hi. v \<noteq> n_key n" by (auto dest: set_dropWhileD)
    with hi have hi': "\<forall>n\<in>set ?hi. v < n_key n" by force
    have inv': "store_inv fr s (?lo @ ?hi)" by (subst split) (rule assms(1))
    let ?nw = "\<lparr>n_addr = a, n_key = v, n_obj = p, n_lvl = lvl\<rparr>"
    from insert_new[OF inv' lo hi' assms(2,3), of p] obtain s' where
      s': "ObjectStore_insert s v p lvl a = Some s'" "store_inv False s' (?lo @ ?nw # ?hi)"
        "header s' = header s" "dom (heap s') \<subseteq> insert a (dom (heap s))" by blast
    have "amap (?lo @ ?nw # ?hi) = (amap (?lo @ ?hi))(v \<mapsto> p)"
      using amap_insert[OF lo, of ?nw ?hi] by simp
    then have "amap (?lo @ ?nw # ?hi) = (amap ns)(v \<mapsto> p)" unfolding split .
    with s' None show ?thesis by blast
  next
    case (Some q)
    then obtain n hi' where c: "?hi = n # hi'" and k: "n_key n = v"
      using amap_hi[OF srt, of v] by (auto split: list.splits if_splits)
    have ns: "?lo @ n # hi' = ns" using c by (metis takeWhile_dropWhile_id)
    have inv': "store_inv fr s (?lo @ n # hi')" by (subst ns) (rule assms(1))
    then have nfr: "\<not> fr" by (auto simp: store_inv_def)
    from insert_existing[OF inv' lo k, of p lvl a] obtain e where
      e: "heap s (n_addr n) = Some e" "entry_value e = v"
        "ObjectStore_insert s v p lvl a = Some (s\<lparr>heap := (heap s)(n_addr n \<mapsto> e\<lparr>obj_ptr := p\<rparr>)\<rparr>)"
        "store_inv fr (s\<lparr>heap := (heap s)(n_addr n \<mapsto> e\<lparr>obj_ptr := p\<rparr>)\<rparr>) (?lo @ n\<lparr>n_obj := p\<rparr> # hi')"
      by blast
    have "\<forall>m\<in>set ?lo. n_key m < n_key n" using lo k by simp
    from amap_update[OF this, of p hi'] have "amap (?lo @ n\<lparr>n_obj := p\<rparr> # hi') = (amap ns)(v \<mapsto> p)"
      unfolding ns k .
    moreover have "dom ((heap s)(n_addr n \<mapsto> e\<lparr>obj_ptr := p\<rparr>)) \<subseteq> insert a (dom (heap s))"
      using e(1) by auto
    ultimately show ?thesis using e nfr by (intro exI conjI impI) (auto)
  qed
qed

lemma store_inv_new: "store_inv True (ObjectStore_new a) []"
  by (auto simp: store_inv_def ObjectStore_new_def link_bound_def node_ok_def hnode_def
      Entry_new_def nth_Cons split: nat.splits)

lemma reach_inv: "reach s m b \<Longrightarrow> \<exists>ns fr. store_inv fr s ns \<and> amap ns = m \<and> (b \<longrightarrow> \<not> fr)"
proof (induction rule: reach.induct)
  case (reach_new a)
  show ?case using store_inv_new[of a] by (intro exI[of _ "[]"] exI[of _ True]) (simp add: amap_def)
next
  case (reach_insert s m b lvl a v p s')
  then obtain ns fr where inv: "store_inv fr s ns" "amap ns = m" by blast
  from insert_inv[OF inv(1) reach_insert(2,3), of v p] obtain s'' ns' where
    r: "ObjectStore_insert s v p lvl a = Some s''" "store_inv False s'' ns'"
       "amap ns' = (amap ns)(v \<mapsto> p)" by blast
  with reach_insert(4) have "s'' = s'" by simp
  with r inv(2) show ?case by (intro exI[of _ ns'] exI[of _ False]) simp
next
  case (reach_erase s m b v s')
  then obtain ns fr where inv: "store_inv fr s ns" "amap ns = m" "b \<longrightarrow> \<not> fr" by blast
  from erase_inv[OF inv(1), of v] obtain s'' ns' where
    r: "ObjectStore_erase s v = Some s''" "store_inv fr s'' ns'"
       "amap ns' = (amap ns)(v := None)" by blast
  with reach_erase(2) have "s'' = s'" by simp
  with r inv(2,3) show ?case by (intro exI[of _ ns'] exI[of _ fr]) simp
qed

lemma keys_distinct: "sorted_wrt (<) (map n_key ns) \<Longrightarrow> distinct (map n_key ns)"
  using strict_sorted_iff by blast


lemma dom_amap: "dom (amap ns) = set (map n_key ns)"
  by (auto simp: amap_def dom_map_of_conv_image_fst image_image)


lemma card_dom_amap:
  assumes "sorted_wrt (<) (map n_key ns)"
  shows "card (dom (amap ns)) = length ns"
  unfolding dom_amap using keys_distinct[OF assms] by (metis distinct_card length_map)

lemma map_of_pairs: "map_of (map (\<lambda>n. (n_key n, n_obj n)) ns) = amap ns"
  by (simp add: amap_def)

subsection \<open>Counting level-0 links\<close>





lemmas eval_defs = ObjectStore_insert_def ObjectStore_erase_def ObjectStore_new_def Entry_new_def
  MAX_LEVEL_def insert_search_def erase_search_def advance_insert.simps advance.simps
  get_forward_def get_link_length_def set_forward_def set_link_length_def insert_raise_def
  insert_link_def insert_bump_def erase_unlink_def numeral_eq_Suc upt_rec Let_def

lemma example_store_insert:
  "ObjectStore_insert (ObjectStore_new 0) 5 (Some 50) 1 1 = Some example_store"
  unfolding example_store_def
  by (simp add: eval_defs, intro ext, simp)

lemma example_store_reach: "reach example_store [5 \<mapsto> Some 50] True"
proof -
  have "reach (ObjectStore_new 0 :: nat ObjectStore) Map.empty False" by (rule reach_new)
  from reach_insert[OF this _ _ example_store_insert] show ?thesis
    by (simp add: MAX_LEVEL_def ObjectStore_new_def)
qed

subsection \<open>General facts about reachable stores\<close>

lemma finite_dom_amap: "finite (dom (amap ns))"
  by (simp add: amap_def finite_dom_map_of)

lemma store_inv_size:
  assumes "store_inv fr s ns"
  shows "ObjectStore_size s = int (card (dom (amap ns)))"
  using assms card_dom_amap[of ns] by (simp add: store_inv_def ObjectStore_size_def)

lemma store_inv_contains:
  assumes "store_inv fr s ns"
  shows "ObjectStore_contains s k = Some (k \<in> dom (amap ns))"
  using contains_inv[OF assms, of k] by (auto simp: dom_def)

lemma filter_key:
  assumes "distinct (map fst kvs)" "map_of kvs k = Some p"
  shows "filter (\<lambda>kv. fst kv = k) kvs = [(k, p)]"
  using assms
proof (induction kvs)
  case Nil
  then show ?case by simp
next
  case (Cons kv kvs)
  show ?case
  proof (cases "fst kv = k")
    case True
    with Cons.prems have "k \<notin> fst ` set kvs" by auto
    then have "filter (\<lambda>kv. fst kv = k) kvs = []" by (auto simp: filter_empty_conv)
    with True Cons.prems show ?thesis by (cases kv) auto
  next
    case False
    with Cons show ?thesis by (cases kv) auto
  qed
qed






lemma insert_present_inv:
  assumes "store_inv fr s ns" "amap ns k \<noteq> None"
  shows "\<exists>y e ns'. heap s y = Some e \<and> entry_value e = k \<and>
           ObjectStore_insert s k p lvl a = Some (s\<lparr>heap := (heap s)(y \<mapsto> e\<lparr>obj_ptr := p\<rparr>)\<rparr>) \<and>
           store_inv fr (s\<lparr>heap := (heap s)(y \<mapsto> e\<lparr>obj_ptr := p\<rparr>)\<rparr>) ns' \<and>
           amap ns' = (amap ns)(k \<mapsto> p)"
proof -
  let ?lo = "takeWhile (\<lambda>n. n_key n < k) ns"
  let ?hi = "dropWhile (\<lambda>n. n_key n < k) ns"
  from assms have srt: "sorted_wrt (<) (map n_key ns)" by (simp add: store_inv_def)
  have lo: "\<forall>n\<in>set ?lo. n_key n < k" by (auto dest: set_takeWhileD)
  from assms(2) obtain n hi' where c: "?hi = n # hi'" and kn: "n_key n = k"
    using amap_hi[OF srt, of k] by (auto split: list.splits if_splits)
  have ns: "?lo @ n # hi' = ns" using c by (metis takeWhile_dropWhile_id)
  have inv': "store_inv fr s (?lo @ n # hi')" by (subst ns) (rule assms(1))
  from insert_existing[OF inv' lo kn, of p lvl a] obtain e where
    e: "heap s (n_addr n) = Some e" "entry_value e = k"
      "ObjectStore_insert s k p lvl a = Some (s\<lparr>heap := (heap s)(n_addr n \<mapsto> e\<lparr>obj_ptr := p\<rparr>)\<rparr>)"
      "store_inv fr (s\<lparr>heap := (heap s)(n_addr n \<mapsto> e\<lparr>obj_ptr := p\<rparr>)\<rparr>) (?lo @ n\<lparr>n_obj := p\<rparr> # hi')"
    by blast
  have "\<forall>m\<in>set ?lo. n_key m < n_key n" using lo kn by simp
  from amap_update[OF this, of p hi'] have "amap (?lo @ n\<lparr>n_obj := p\<rparr> # hi') = (amap ns)(k \<mapsto> p)"
    unfolding ns kn .
  with e show ?thesis by blast
qed

section \<open>Properties of the AttributeStore\<close>

lemma AttributeStore_attribute_add:
  "AttributeStore_attribute s n = None \<Longrightarrow>
   AttributeStore_add s n t = Inr s1 \<Longrightarrow>
   AttributeStore_attribute s1 n = Some \<lparr>aname = n, atype = t\<rparr>"
  by (auto simp: AttributeStore_add_def AttributeStore_attribute_def)




section \<open>The indexes of a network\<close>

lemma lookup_drop_where [simp]:
  "fmlookup (drop_where P m) k =
     (case fmlookup m k of None \<Rightarrow> None | Some v \<Rightarrow> if P v then None else Some v)"
  by (simp add: drop_where_def split: option.splits)

lemma lookup2_update2 [simp]:
  "lookup2 (update2 m k1 k2 v) j1 j2 = (if j1 = k1 \<and> j2 = k2 then Some v else lookup2 m j1 j2)"
  by (auto simp: lookup2_def update2_def split: option.splits)

lemma lookup2_drop_where [simp]:
  "lookup2 (fmmap (drop_where P) m) k1 k2 =
     (case lookup2 m k1 k2 of None \<Rightarrow> None | Some v \<Rightarrow> if P v then None else Some v)"
  by (simp add: lookup2_def split: option.splits)

lemma lookup2_empty [simp]: "lookup2 fmempty k1 k2 = None"
  by (simp add: lookup2_def)

subsection \<open>The fields an operation leaves alone\<close>

lemma erase_edges_fields [simp]:
  "actors_by_id (erase_edges net P) = actors_by_id net"
  "actors_by_name (erase_edges net P) = actors_by_name net"
  "layers_by_id (erase_edges net P) = layers_by_id net"
  "layers_by_name (erase_edges net P) = layers_by_name net"
  "nodes_by_id (erase_edges net P) = nodes_by_id net"
  "nodes_by_layer_and_id (erase_edges net P) = nodes_by_layer_and_id net"
  "nodes_by_actor_and_id (erase_edges net P) = nodes_by_actor_and_id net"
  "nodes_by_layer_and_name (erase_edges net P) = nodes_by_layer_and_name net"
  "max_node_id (erase_edges net P) = max_node_id net"
  "edges_by_id (erase_edges net P) = drop_where P (edges_by_id net)"
  "edges_by_nodes (erase_edges net P) = fmmap (drop_where P) (edges_by_nodes net)"
  "edges_by_layers_and_id (erase_edges net P) =
     fmmap (fmmap (drop_where P)) (edges_by_layers_and_id net)"
  by (simp_all add: erase_edges_def Let_def)

lemma erase_nodes_fields [simp]:
  "actors_by_id (erase_nodes net P) = actors_by_id net"
  "actors_by_name (erase_nodes net P) = actors_by_name net"
  "layers_by_id (erase_nodes net P) = layers_by_id net"
  "layers_by_name (erase_nodes net P) = layers_by_name net"
  "max_node_id (erase_nodes net P) = max_node_id net"
  "nodes_by_id (erase_nodes net P) = drop_where P (nodes_by_id net)"
  "nodes_by_layer_and_id (erase_nodes net P) = fmmap (drop_where P) (nodes_by_layer_and_id net)"
  "nodes_by_actor_and_id (erase_nodes net P) = fmmap (drop_where P) (nodes_by_actor_and_id net)"
  "nodes_by_layer_and_name (erase_nodes net P) =
     fmmap (drop_where P) (nodes_by_layer_and_name net)"
  "edges_by_id (erase_nodes net P) =
     drop_where (\<lambda>e. P (edge_v1 e) \<or> P (edge_v2 e)) (edges_by_id net)"
  "edges_by_nodes (erase_nodes net P) =
     fmmap (drop_where (\<lambda>e. P (edge_v1 e) \<or> P (edge_v2 e))) (edges_by_nodes net)"
  "edges_by_layers_and_id (erase_nodes net P) =
     fmmap (fmmap (drop_where (\<lambda>e. P (edge_v1 e) \<or> P (edge_v2 e)))) (edges_by_layers_and_id net)"
  by (simp_all add: erase_nodes_def Let_def)

subsection \<open>The invariant of the network\<close>

lemma inv_create: "MLNetwork_inv (MLNetwork_create name)"
  by (simp add: MLNetwork_inv_def actors_inv_def layers_inv_def nodes_inv_def edges_inv_def
      MLNetwork_create_def)

lemma inv_add_actor:
  assumes "MLNetwork_inv net"
  shows "MLNetwork_inv (snd (add_actor net name))"
proof (cases "get_actor_by_name net name")
  case None
  with assms show ?thesis
    unfolding MLNetwork_inv_def actors_inv_def layers_inv_def nodes_inv_def edges_inv_def
    by (auto simp: add_actor_def Let_def get_actor_by_name_def)
next
  case (Some a)
  with assms show ?thesis by (simp add: add_actor_def)
qed

lemma inv_add_layer:
  assumes "MLNetwork_inv net"
  shows "MLNetwork_inv (snd (add_layer net name directed))"
proof (cases "get_layer_by_name net name")
  case None
  with assms show ?thesis
    unfolding MLNetwork_inv_def actors_inv_def layers_inv_def nodes_inv_def edges_inv_def
    by (auto simp: add_layer_def Let_def get_layer_by_name_def)
next
  case (Some a)
  with assms show ?thesis by (simp add: add_layer_def)
qed

lemma inv_set_directed:
  "MLNetwork_inv net \<Longrightarrow> MLNetwork_inv (set_directed net l1 l2 directed)"
  by (simp add: MLNetwork_inv_def actors_inv_def layers_inv_def nodes_inv_def edges_inv_def
      set_directed_def)

lemma inv_add_node:
  assumes "MLNetwork_inv net"
  shows "MLNetwork_inv (snd (add_node net name a l))"
proof (cases "get_actor net (actor_id a) \<noteq> Some a \<or> get_layer net (layer_id l) \<noteq> Some l")
  case True
  with assms show ?thesis by (simp add: add_node_def)
next
  case False
  from assms have n: "nodes_inv net" and e: "edges_inv net" by (simp_all add: MLNetwork_inv_def)
  have n': "nodes_inv (snd (add_node net name a l))"
    unfolding nodes_inv_def
  proof (intro allI impI)
    fix i nd
    assume "fmlookup (nodes_by_id (snd (add_node net name a l))) i = Some nd"
    with False have c: "i = max_node_id net + 1 \<and>
        nd = \<lparr>node_id = max_node_id net + 1, node_name = name, node_actor = a, node_layer = l\<rparr> \<or>
        fmlookup (nodes_by_id net) i = Some nd"
      by (auto simp: add_node_def Let_def split: if_splits)
    have m: "max_node_id (snd (add_node net name a l)) = max_node_id net + 1"
      using False by (simp add: add_node_def Let_def)
    from c show "node_id nd = i \<and> i \<le> max_node_id (snd (add_node net name a l))"
    proof
      assume "i = max_node_id net + 1 \<and>
        nd = \<lparr>node_id = max_node_id net + 1, node_name = name, node_actor = a, node_layer = l\<rparr>"
      with m show ?thesis by simp
    next
      assume "fmlookup (nodes_by_id net) i = Some nd"
      with n have "node_id nd = i" "i \<le> max_node_id net" unfolding nodes_inv_def by blast+
      with m show ?thesis by simp
    qed
  qed
  have e': "edges_inv (snd (add_node net name a l))"
    unfolding edges_inv_def
  proof (intro allI impI)
    fix i ed
    assume "fmlookup (edges_by_id (snd (add_node net name a l))) i = Some ed"
    with False have live: "fmlookup (edges_by_id net) i = Some ed"
      by (simp add: add_node_def Let_def)
    with e have v: "fmlookup (nodes_by_id net) (node_id (edge_v1 ed)) = Some (edge_v1 ed)"
        "fmlookup (nodes_by_id net) (node_id (edge_v2 ed)) = Some (edge_v2 ed)"
        "lookup2 (edges_by_nodes net) (node_id (edge_v1 ed)) (node_id (edge_v2 ed)) = Some ed"
      unfolding edges_inv_def by blast+
    with n have "node_id (edge_v1 ed) \<le> max_node_id net" "node_id (edge_v2 ed) \<le> max_node_id net"
      unfolding nodes_inv_def by blast+
    with v False show
      "fmlookup (nodes_by_id (snd (add_node net name a l))) (node_id (edge_v1 ed)) = Some (edge_v1 ed) \<and>
       fmlookup (nodes_by_id (snd (add_node net name a l))) (node_id (edge_v2 ed)) = Some (edge_v2 ed) \<and>
       lookup2 (edges_by_nodes (snd (add_node net name a l))) (node_id (edge_v1 ed))
         (node_id (edge_v2 ed)) = Some ed"
      by (simp add: add_node_def Let_def)
  qed
  from assms False have "actors_inv (snd (add_node net name a l))"
      "layers_inv (snd (add_node net name a l))"
    by (simp_all add: MLNetwork_inv_def actors_inv_def layers_inv_def add_node_def Let_def)
  with n' e' show ?thesis by (simp add: MLNetwork_inv_def)
qed

lemma add_edge_not_found:
  assumes "get_node net (node_id n1) \<noteq> Some n1 \<or> get_node net (node_id n2) \<noteq> Some n2"
  shows "add_edge net n1 n2 = (Inl ElementNotFoundException, net)"
  unfolding add_edge_def by (rule if_P[OF assms])

lemma add_edge_duplicate:
  assumes c: "\<not> (get_node net (node_id n1) \<noteq> Some n1 \<or> get_node net (node_id n2) \<noteq> Some n2)"
    and d: "get_edge net n1 n2 \<noteq> None \<or>
      (\<not> is_directed net (node_layer n1) (node_layer n2) \<and> get_edge net n2 n1 \<noteq> None)"
  shows "add_edge net n1 n2 = (Inl DuplicateElementException, net)"
  unfolding add_edge_def if_not_P[OF c] Let_def by (rule if_P[OF d])

lemma add_edge_new:
  assumes c: "\<not> (get_node net (node_id n1) \<noteq> Some n1 \<or> get_node net (node_id n2) \<noteq> Some n2)"
    and d: "\<not> (get_edge net n1 n2 \<noteq> None \<or>
      (\<not> is_directed net (node_layer n1) (node_layer n2) \<and> get_edge net n2 n1 \<noteq> None))"
  shows "fst (add_edge net n1 n2) =
      Inr \<lparr>edge_id = max_edge_id net + 1, edge_v1 = n1, edge_v2 = n2,
            edge_directed = is_directed net (node_layer n1) (node_layer n2)\<rparr>"
    "edges_by_id (snd (add_edge net n1 n2)) =
       fmupd (max_edge_id net + 1)
         \<lparr>edge_id = max_edge_id net + 1, edge_v1 = n1, edge_v2 = n2,
            edge_directed = is_directed net (node_layer n1) (node_layer n2)\<rparr> (edges_by_id net)"
    "nodes_by_id (snd (add_edge net n1 n2)) = nodes_by_id net"
    "max_node_id (snd (add_edge net n1 n2)) = max_node_id net"
    "actors_by_id (snd (add_edge net n1 n2)) = actors_by_id net"
    "actors_by_name (snd (add_edge net n1 n2)) = actors_by_name net"
    "layers_by_id (snd (add_edge net n1 n2)) = layers_by_id net"
    "layers_by_name (snd (add_edge net n1 n2)) = layers_by_name net"
    "edges_by_nodes (snd (add_edge net n1 n2)) =
       (if is_directed net (node_layer n1) (node_layer n2)
        then update2 (edges_by_nodes net) (node_id n1) (node_id n2)
               \<lparr>edge_id = max_edge_id net + 1, edge_v1 = n1, edge_v2 = n2,
                 edge_directed = is_directed net (node_layer n1) (node_layer n2)\<rparr>
        else update2 (update2 (edges_by_nodes net) (node_id n1) (node_id n2)
               \<lparr>edge_id = max_edge_id net + 1, edge_v1 = n1, edge_v2 = n2,
                 edge_directed = is_directed net (node_layer n1) (node_layer n2)\<rparr>)
               (node_id n2) (node_id n1)
               \<lparr>edge_id = max_edge_id net + 1, edge_v1 = n1, edge_v2 = n2,
                 edge_directed = is_directed net (node_layer n1) (node_layer n2)\<rparr>)"
  unfolding add_edge_def if_not_P[OF c] Let_def if_not_P[OF d] fst_conv snd_conv
  by simp_all

lemma add_edge_cases:
  obtains
    (not_found) "get_node net (node_id n1) \<noteq> Some n1 \<or> get_node net (node_id n2) \<noteq> Some n2"
  | (duplicate) "\<not> (get_node net (node_id n1) \<noteq> Some n1 \<or> get_node net (node_id n2) \<noteq> Some n2)"
      "get_edge net n1 n2 \<noteq> None \<or>
       (\<not> is_directed net (node_layer n1) (node_layer n2) \<and> get_edge net n2 n1 \<noteq> None)"
  | (new) "\<not> (get_node net (node_id n1) \<noteq> Some n1 \<or> get_node net (node_id n2) \<noteq> Some n2)"
      "\<not> (get_edge net n1 n2 \<noteq> None \<or>
       (\<not> is_directed net (node_layer n1) (node_layer n2) \<and> get_edge net n2 n1 \<noteq> None))"
  by blast

lemma inv_add_edge:
  assumes "MLNetwork_inv net"
  shows "MLNetwork_inv (snd (add_edge net n1 n2))"
proof (cases rule: add_edge_cases[of net n1 n2])
  case not_found
  with assms show ?thesis by (simp add: add_edge_not_found)
next
  case duplicate
  with assms show ?thesis by (simp add: add_edge_duplicate)
next
  case new
  note s = add_edge_new[OF new]
  let ?net' = "snd (add_edge net n1 n2)"
  let ?d = "is_directed net (node_layer n1) (node_layer n2)"
  let ?e = "\<lparr>edge_id = max_edge_id net + 1, edge_v1 = n1, edge_v2 = n2, edge_directed = ?d\<rparr>"
  from new have live: "fmlookup (nodes_by_id net) (node_id n1) = Some n1"
      "fmlookup (nodes_by_id net) (node_id n2) = Some n2"
    and free: "lookup2 (edges_by_nodes net) (node_id n1) (node_id n2) = None"
      "?d \<or> lookup2 (edges_by_nodes net) (node_id n2) (node_id n1) = None"
    by (auto simp: get_node_def get_edge_def)
  from assms have e: "edges_inv net" by (simp add: MLNetwork_inv_def)
  have e': "edges_inv ?net'"
    unfolding edges_inv_def
  proof (intro allI impI)
    fix i ed
    assume a: "fmlookup (edges_by_id ?net') i = Some ed"
    show "fmlookup (nodes_by_id ?net') (node_id (edge_v1 ed)) = Some (edge_v1 ed) \<and>
       fmlookup (nodes_by_id ?net') (node_id (edge_v2 ed)) = Some (edge_v2 ed) \<and>
       lookup2 (edges_by_nodes ?net') (node_id (edge_v1 ed)) (node_id (edge_v2 ed)) = Some ed"
    proof (cases "i = max_edge_id net + 1")
      case True
      with a have ed: "ed = ?e" by (simp add: s(2))
      have "lookup2 (edges_by_nodes ?net') (node_id n1) (node_id n2) = Some ?e"
        unfolding s(9) by (cases ?d) simp_all
      with live show ?thesis unfolding ed s(3) by simp
    next
      case False
      with a have old: "fmlookup (edges_by_id net) i = Some ed" by (simp add: s(2))
      with e have v: "fmlookup (nodes_by_id net) (node_id (edge_v1 ed)) = Some (edge_v1 ed)"
          "fmlookup (nodes_by_id net) (node_id (edge_v2 ed)) = Some (edge_v2 ed)"
          "lookup2 (edges_by_nodes net) (node_id (edge_v1 ed)) (node_id (edge_v2 ed)) = Some ed"
        unfolding edges_inv_def by blast+
      from v(3) free(1) have d1: "\<not> (node_id (edge_v1 ed) = node_id n1 \<and> node_id (edge_v2 ed) = node_id n2)"
        by auto
      from v(3) free(2) have d2: "?d \<or>
          \<not> (node_id (edge_v1 ed) = node_id n2 \<and> node_id (edge_v2 ed) = node_id n1)"
        by auto
      have "lookup2 (edges_by_nodes ?net') (node_id (edge_v1 ed)) (node_id (edge_v2 ed)) =
          lookup2 (edges_by_nodes net) (node_id (edge_v1 ed)) (node_id (edge_v2 ed))"
      proof (cases ?d)
        case True
        then show ?thesis unfolding s(9) by (simp add: d1)
      next
        case False
        with d2 have d2': "\<not> (node_id (edge_v1 ed) = node_id n2 \<and> node_id (edge_v2 ed) = node_id n1)"
          by simp
        from False show ?thesis unfolding s(9) by (simp add: d1 d2')
      qed
      with v show ?thesis unfolding s(3) by simp
    qed
  qed
  from assms have "actors_inv ?net'" "layers_inv ?net'" "nodes_inv ?net'"
    by (simp_all add: MLNetwork_inv_def actors_inv_def layers_inv_def nodes_inv_def s(3-8))
  with e' show ?thesis by (simp add: MLNetwork_inv_def)
qed

lemma inv_erase_edges:
  assumes "MLNetwork_inv net"
  shows "MLNetwork_inv (erase_edges net P)"
proof -
  from assms have "edges_inv (erase_edges net P)"
    unfolding MLNetwork_inv_def edges_inv_def
    by (auto split: option.splits if_splits)
  with assms show ?thesis
    by (simp add: MLNetwork_inv_def actors_inv_def layers_inv_def nodes_inv_def)
qed

lemma inv_erase_nodes:
  assumes "MLNetwork_inv net"
  shows "MLNetwork_inv (erase_nodes net P)"
proof -
  from assms have "edges_inv (erase_nodes net P)"
    unfolding MLNetwork_inv_def edges_inv_def
    by (auto split: option.splits if_splits)
  moreover from assms have "nodes_inv (erase_nodes net P)"
    unfolding MLNetwork_inv_def nodes_inv_def
    by (auto split: option.splits if_splits)
  ultimately show ?thesis using assms
    by (simp add: MLNetwork_inv_def actors_inv_def layers_inv_def)
qed

lemma erase_actor_fields [simp]:
  "layers_by_id (erase_actor net a) = layers_by_id net"
  "layers_by_name (erase_actor net a) = layers_by_name net"
  "max_node_id (erase_actor net a) = max_node_id net"
  "actors_by_id (erase_actor net a) = fmdrop (actor_id a) (actors_by_id net)"
  "actors_by_name (erase_actor net a) = fmdrop (actor_name a) (actors_by_name net)"
  "nodes_by_id (erase_actor net a) =
     nodes_by_id (erase_nodes net (\<lambda>n. actor_id (node_actor n) = actor_id a))"
  "edges_by_id (erase_actor net a) =
     edges_by_id (erase_nodes net (\<lambda>n. actor_id (node_actor n) = actor_id a))"
  "edges_by_nodes (erase_actor net a) =
     edges_by_nodes (erase_nodes net (\<lambda>n. actor_id (node_actor n) = actor_id a))"
  by (simp_all add: erase_actor_def Let_def)

lemma inv_erase_actor:
  assumes "MLNetwork_inv net" "get_actor net (actor_id a) = Some a"
  shows "MLNetwork_inv (erase_actor net a)"
proof -
  let ?P = "\<lambda>n. actor_id (node_actor n) = actor_id a"
  from inv_erase_nodes[OF assms(1), of ?P]
  have n: "nodes_inv (erase_actor net a)" and e: "edges_inv (erase_actor net a)"
    and l: "layers_inv (erase_actor net a)"
    by (simp_all add: MLNetwork_inv_def nodes_inv_def edges_inv_def layers_inv_def)
  from assms(1) have ai: "actors_inv net" by (simp add: MLNetwork_inv_def)
  from ai assms(2) have la: "fmlookup (actors_by_name net) (actor_name a) = Some a"
    unfolding actors_inv_def get_actor_def by blast
  have "actors_inv (erase_actor net a)"
    unfolding actors_inv_def
  proof (intro allI impI)
    fix i b
    assume "fmlookup (actors_by_id (erase_actor net a)) i = Some b"
    then have i: "i \<noteq> actor_id a" and b: "fmlookup (actors_by_id net) i = Some b"
      by (auto split: if_splits)
    with ai have bi: "actor_id b = i" "fmlookup (actors_by_name net) (actor_name b) = Some b"
      unfolding actors_inv_def by blast+
    with la i have "actor_name b \<noteq> actor_name a" by auto
    with bi show "actor_id b = i \<and>
        fmlookup (actors_by_name (erase_actor net a)) (actor_name b) = Some b"
      by simp
  qed
  with n e l show ?thesis by (simp add: MLNetwork_inv_def)
qed

lemma reach_inv_net: "MLNetwork_reach net \<Longrightarrow> MLNetwork_inv net"
proof (induction rule: MLNetwork_reach.induct)
  case (reach_erase_edge net e)
  from reach_erase_edge.IH show ?case unfolding erase_edge_def by (rule inv_erase_edges)
next
  case (reach_erase_node net n)
  from reach_erase_node.IH show ?case unfolding erase_node_def by (rule inv_erase_nodes)
qed (simp_all add: inv_create inv_add_actor inv_add_layer inv_set_directed inv_add_node
    inv_add_edge inv_erase_actor)

subsection \<open>The example network\<close>

lemma ex_actors_fields:
  "actors_by_id ex_actors = fmupd 2 ex_a2 (fmupd 1 ex_a1 fmempty)"
  "actors_by_name ex_actors = fmupd ''a2'' ex_a2 (fmupd ''a1'' ex_a1 fmempty)"
  "layers_by_id ex_actors = fmempty" "layers_by_name ex_actors = fmempty"
  "nodes_by_id ex_actors = fmempty" "edges_by_id ex_actors = fmempty"
  "edges_by_nodes ex_actors = fmempty" "edge_directionality ex_actors = fmempty"
  "max_node_id ex_actors = 0" "max_edge_id ex_actors = 0" "max_layer_id ex_actors = 0"
  by (simp_all add: ex_actors_def add_actor_def get_actor_by_name_def MLNetwork_create_def
      Let_def ex_a1_def ex_a2_def)

lemma ex_layers_fields:
  "actors_by_id ex_layers = fmupd 2 ex_a2 (fmupd 1 ex_a1 fmempty)"
  "actors_by_name ex_layers = fmupd ''a2'' ex_a2 (fmupd ''a1'' ex_a1 fmempty)"
  "layers_by_id ex_layers = fmupd 1 ex_l1 fmempty"
  "layers_by_name ex_layers = fmupd ''l1'' ex_l1 fmempty"
  "nodes_by_id ex_layers = fmempty" "edges_by_id ex_layers = fmempty"
  "edges_by_nodes ex_layers = fmempty"
  "edge_directionality ex_layers = update2 fmempty 1 1 False"
  "max_node_id ex_layers = 0" "max_edge_id ex_layers = 0"
  by (simp_all add: ex_layers_def add_layer_def get_layer_by_name_def ex_actors_fields
      Let_def ex_l1_def)

lemma ex_nodes_fields:
  "actors_by_id ex_nodes = fmupd 2 ex_a2 (fmupd 1 ex_a1 fmempty)"
  "actors_by_name ex_nodes = fmupd ''a2'' ex_a2 (fmupd ''a1'' ex_a1 fmempty)"
  "layers_by_id ex_nodes = fmupd 1 ex_l1 fmempty"
  "layers_by_name ex_nodes = fmupd ''l1'' ex_l1 fmempty"
  "nodes_by_id ex_nodes = fmupd 2 ex_n2 (fmupd 1 ex_n1 fmempty)"
  "edges_by_id ex_nodes = fmempty"
  "edges_by_nodes ex_nodes = fmempty"
  "edge_directionality ex_nodes = update2 fmempty 1 1 False"
  "max_edge_id ex_nodes = 0"
proof -
  have l: "get_actor ex_layers (actor_id ex_a1) = Some ex_a1"
    "get_layer ex_layers (layer_id ex_l1) = Some ex_l1"
    by (simp_all add: get_actor_def get_layer_def ex_layers_fields ex_a1_def ex_l1_def)
  define mid where "mid = snd (add_node ex_layers ''n1'' ex_a1 ex_l1)"
  have m: "actors_by_id mid = fmupd 2 ex_a2 (fmupd 1 ex_a1 fmempty)"
    "actors_by_name mid = fmupd ''a2'' ex_a2 (fmupd ''a1'' ex_a1 fmempty)"
    "layers_by_id mid = fmupd 1 ex_l1 fmempty"
    "layers_by_name mid = fmupd ''l1'' ex_l1 fmempty"
    "nodes_by_id mid = fmupd 1 ex_n1 fmempty"
    "edges_by_id mid = fmempty" "edges_by_nodes mid = fmempty"
    "edge_directionality mid = update2 fmempty 1 1 False"
    "max_edge_id mid = 0" "max_node_id mid = 1"
    unfolding mid_def using l
    by (simp_all add: add_node_def Let_def ex_layers_fields ex_n1_def)
  have l2: "get_actor mid (actor_id ex_a2) = Some ex_a2"
    "get_layer mid (layer_id ex_l1) = Some ex_l1"
    by (simp_all add: get_actor_def get_layer_def m ex_a2_def ex_l1_def)
  show "actors_by_id ex_nodes = fmupd 2 ex_a2 (fmupd 1 ex_a1 fmempty)"
    "actors_by_name ex_nodes = fmupd ''a2'' ex_a2 (fmupd ''a1'' ex_a1 fmempty)"
    "layers_by_id ex_nodes = fmupd 1 ex_l1 fmempty"
    "layers_by_name ex_nodes = fmupd ''l1'' ex_l1 fmempty"
    "nodes_by_id ex_nodes = fmupd 2 ex_n2 (fmupd 1 ex_n1 fmempty)"
    "edges_by_id ex_nodes = fmempty"
    "edges_by_nodes ex_nodes = fmempty"
    "edge_directionality ex_nodes = update2 fmempty 1 1 False"
    "max_edge_id ex_nodes = 0"
    unfolding ex_nodes_def mid_def[symmetric] using l2
    by (simp_all add: add_node_def Let_def m ex_n2_def)
qed

lemma ex_nodes_live:
  "\<not> (get_node ex_nodes (node_id ex_n1) \<noteq> Some ex_n1 \<or> get_node ex_nodes (node_id ex_n2) \<noteq> Some ex_n2)"
  by (simp add: get_node_def ex_nodes_fields ex_n1_def ex_n2_def)

lemma ex_nodes_free:
  "\<not> (get_edge ex_nodes ex_n1 ex_n2 \<noteq> None \<or>
      (\<not> is_directed ex_nodes (node_layer ex_n1) (node_layer ex_n2) \<and>
       get_edge ex_nodes ex_n2 ex_n1 \<noteq> None))"
  by (simp add: get_edge_def ex_nodes_fields)

lemma ex_undirected: "\<not> is_directed ex_nodes ex_l1 ex_l1"
  by (simp add: is_directed_def ex_nodes_fields ex_l1_def)

lemma example_net_fields:
  "actors_by_id example_net = fmupd 2 ex_a2 (fmupd 1 ex_a1 fmempty)"
  "layers_by_id example_net = fmupd 1 ex_l1 fmempty"
  "nodes_by_id example_net = fmupd 2 ex_n2 (fmupd 1 ex_n1 fmempty)"
  "edges_by_id example_net = fmupd 1 ex_e1 fmempty"
  "edges_by_nodes example_net = update2 (update2 fmempty 1 2 ex_e1) 2 1 ex_e1"
  unfolding example_net_def add_edge_new[OF ex_nodes_live ex_nodes_free]
  using ex_undirected
  by (simp_all add: ex_nodes_fields ex_e1_def ex_n1_def ex_n2_def)

lemma example_net_directed [simp]: "is_directed example_net ex_l1 ex_l1 = False"
  using ex_undirected
  by (simp add: example_net_def is_directed_def add_edge_def Let_def)

lemma example_net_reach: "MLNetwork_reach example_net"
  unfolding example_net_def ex_nodes_def ex_layers_def ex_actors_def
  by (intro MLNetwork_reach.intros)

subsection \<open>What an erased actor leaves behind\<close>

lemma index_edges_erase_nodes:
  "e \<in> index_edges (erase_nodes net P) \<Longrightarrow> \<not> P (edge_v1 e) \<and> \<not> P (edge_v2 e)"
  by (auto simp: index_edges_def lookup2_def split: option.splits if_splits)

lemma erase_edges_neighbors:
  "lookup2 (neighbors_out (erase_edges net Q)) u w = Some n \<Longrightarrow> lookup2 (neighbors_out net) u w = Some n"
  "lookup2 (neighbors_in (erase_edges net Q)) u w = Some n \<Longrightarrow> lookup2 (neighbors_in net) u w = Some n"
  "lookup2 (neighbors_all (erase_edges net Q)) u w = Some n \<Longrightarrow> lookup2 (neighbors_all net) u w = Some n"
  by (auto simp: erase_edges_def Let_def lookup2_def split: option.splits if_splits)

lemma erase_nodes_neighbors:
  "lookup2 (neighbors_out (erase_nodes net P)) u w = Some n \<Longrightarrow> \<not> P n"
  "lookup2 (neighbors_in (erase_nodes net P)) u w = Some n \<Longrightarrow> \<not> P n"
  "lookup2 (neighbors_all (erase_nodes net P)) u w = Some n \<Longrightarrow> \<not> P n"
  by (auto simp: erase_nodes_def Let_def lookup2_def split: option.splits if_splits)

lemma erase_nodes_neighbors_key:
  assumes "fmlookup (nodes_by_id net) i = Some n" "P n"
  shows "fmlookup (neighbors_out (erase_nodes net P)) i = None"
    "fmlookup (neighbors_in (erase_nodes net P)) i = None"
    "fmlookup (neighbors_all (erase_nodes net P)) i = None"
  using assms by (simp_all add: erase_nodes_def Let_def)

lemma index_nodes_erase_nodes:
  assumes "n \<in> index_nodes (erase_nodes net P)"
  shows "\<not> P n"
proof -
  from assms consider
      (a) "\<exists>i. fmlookup (nodes_by_id (erase_nodes net P)) i = Some n"
    | (b) "\<exists>l i. lookup2 (nodes_by_layer_and_id (erase_nodes net P)) l i = Some n"
    | (c) "\<exists>a i. lookup2 (nodes_by_actor_and_id (erase_nodes net P)) a i = Some n"
    | (d) "\<exists>l name. lookup2 (nodes_by_layer_and_name (erase_nodes net P)) l name = Some n"
    | (e) "\<exists>u w. lookup2 (neighbors_out (erase_nodes net P)) u w = Some n"
    | (f) "\<exists>u w. lookup2 (neighbors_in (erase_nodes net P)) u w = Some n"
    | (g) "\<exists>u w. lookup2 (neighbors_all (erase_nodes net P)) u w = Some n"
    | (h) "\<exists>e\<in>index_edges (erase_nodes net P). n = edge_v1 e \<or> n = edge_v2 e"
    unfolding index_nodes_def by blast
  then show ?thesis
  proof cases
    case a then show ?thesis by (auto split: option.splits if_splits)
  next
    case b then show ?thesis by (auto split: option.splits if_splits)
  next
    case c then show ?thesis by (auto split: option.splits if_splits)
  next
    case d then show ?thesis by (auto split: option.splits if_splits)
  next
    case e then show ?thesis by (auto dest: erase_nodes_neighbors)
  next
    case f then show ?thesis by (auto dest: erase_nodes_neighbors)
  next
    case g then show ?thesis by (auto dest: erase_nodes_neighbors)
  next
    case h then show ?thesis by (auto dest: index_edges_erase_nodes)
  qed
qed

lemma erase_actor_more_fields [simp]:
  "edges_by_layers_and_id (erase_actor net a) =
     edges_by_layers_and_id (erase_nodes net (\<lambda>n. actor_id (node_actor n) = actor_id a))"
  "nodes_by_layer_and_id (erase_actor net a) =
     nodes_by_layer_and_id (erase_nodes net (\<lambda>n. actor_id (node_actor n) = actor_id a))"
  "nodes_by_layer_and_name (erase_actor net a) =
     nodes_by_layer_and_name (erase_nodes net (\<lambda>n. actor_id (node_actor n) = actor_id a))"
  "neighbors_out (erase_actor net a) =
     neighbors_out (erase_nodes net (\<lambda>n. actor_id (node_actor n) = actor_id a))"
  "neighbors_in (erase_actor net a) =
     neighbors_in (erase_nodes net (\<lambda>n. actor_id (node_actor n) = actor_id a))"
  "neighbors_all (erase_actor net a) =
     neighbors_all (erase_nodes net (\<lambda>n. actor_id (node_actor n) = actor_id a))"
  "nodes_by_actor_and_id (erase_actor net a) =
     fmdrop (actor_id a) (nodes_by_actor_and_id (erase_nodes net (\<lambda>n. actor_id (node_actor n) = actor_id a)))"
  by (simp_all add: erase_actor_def Let_def)

lemma index_edges_erase_actor:
  "index_edges (erase_actor net a) =
   index_edges (erase_nodes net (\<lambda>n. actor_id (node_actor n) = actor_id a))"
  by (simp add: index_edges_def)

lemma lookup2_fmdrop:
  "lookup2 (fmdrop k m) k1 k2 = Some v \<Longrightarrow> lookup2 m k1 k2 = Some v"
  by (auto simp: lookup2_def split: if_splits option.splits)

lemma index_nodes_erase_actor:
  "index_nodes (erase_actor net a) \<subseteq>
   index_nodes (erase_nodes net (\<lambda>n. actor_id (node_actor n) = actor_id a))"
  unfolding index_nodes_def index_edges_erase_actor erase_actor_fields erase_actor_more_fields
  by (blast dest: lookup2_fmdrop)

section \<open>Properties of the ObjectStore\<close>






text \<open>
  Claim C3. For every reachable store and every key \<open>k\<close>, \<open>erase(k)\<close> returns, and
  afterwards \<open>contains(k)\<close> is false and \<open>get(k)\<close> is null. If \<open>k\<close> was present,
  \<open>size()\<close> has decreased by exactly 1; if it was absent, the store after the call is
  the store before it.
\<close>

theorem C3_erase:
  assumes "reach s m b"
  shows "\<exists>s'. ObjectStore_erase s k = Some s' \<and>
           ObjectStore_contains s' k = Some False \<and> ObjectStore_get s' k = Some None \<and>
           (if ObjectStore_contains s k = Some True
            then ObjectStore_size s' = ObjectStore_size s - 1
            else ObjectStore_contains s k = Some False \<and> s' = s)"
proof -
  from reach_inv[OF assms] obtain ns fr where inv: "store_inv fr s ns" and m: "amap ns = m" by blast
  from erase_inv[OF inv, of k] obtain s' ns' where
    e: "ObjectStore_erase s k = Some s'" "store_inv fr s' ns'" "amap ns' = (amap ns)(k := None)"
      "amap ns k = None \<longrightarrow> s' = s" by auto
  have c': "ObjectStore_contains s' k = Some False"
    using store_inv_contains[OF e(2), of k] e(3) by simp
  have g': "ObjectStore_get s' k = Some None"
    using get_inv[OF e(2), of k] e(3) by simp
  have c: "ObjectStore_contains s k = Some (k \<in> dom (amap ns))" by (rule store_inv_contains[OF inv])
  have "card (dom (amap ns')) = card (dom (amap ns)) - 1" "card (dom (amap ns)) > 0"
    if "k \<in> dom (amap ns)"
    using that finite_dom_amap[of ns] e(3) by (auto simp: card_gt_0_iff)
  then have "ObjectStore_size s' = ObjectStore_size s - 1" if "k \<in> dom (amap ns)"
    using that store_inv_size[OF inv] store_inv_size[OF e(2)] by (simp add: of_nat_diff)
  with e(1,4) c c' g' show ?thesis by (auto simp: dom_def)
qed

text \<open>
  Erasing the present key \<open>5\<close> of the one-key store leaves an empty store; erasing the
  absent key \<open>6\<close> leaves the store as it is.
\<close>

theorem C3_erase_witness:
  "reach example_store [5 \<mapsto> Some 50] True \<and>
   (\<exists>s'. ObjectStore_erase example_store 5 = Some s' \<and>
      ObjectStore_contains s' 5 = Some False \<and> ObjectStore_get s' 5 = Some None \<and>
      ObjectStore_size s' = 0) \<and>
   ObjectStore_erase example_store 6 = Some example_store"
proof -
  have c5: "ObjectStore_contains example_store 5 = Some True"
    by (simp add: ObjectStore_contains_def example_store_def get_forward_def advance.simps)
  have c6: "ObjectStore_contains example_store 6 = Some False"
    by (simp add: ObjectStore_contains_def example_store_def get_forward_def advance.simps)
  have sz: "ObjectStore_size example_store = 1"
    by (simp add: ObjectStore_size_def example_store_def)
  from C3_erase[OF example_store_reach, of 5] C3_erase[OF example_store_reach, of 6]
    c5 c6 sz example_store_reach
  show ?thesis by auto
qed

text \<open>
  Claim C4. For every reachable store in which the key \<open>k\<close> is present, \<open>insert(k, h)\<close>
  returns a store that differs from the given one in the \<open>obj_ptr\<close> field of one entry
  only, the entry with key \<open>k\<close>, which now holds \<open>h\<close>: all entries, links and link
  lengths, \<open>level\<close> and \<open>num_entries\<close> are as before. So \<open>size()\<close> is unchanged, \<open>get(k)\<close>
  returns \<open>h\<close>, and iteration meets exactly one entry with key \<open>k\<close>. Neither the level
  drawn nor a new address plays a part.
\<close>

theorem C4_insert_present:
  assumes "reach s m b" "ObjectStore_contains s k = Some True"
  shows "\<exists>y e s'. heap s y = Some e \<and> entry_value e = k \<and>
           s' = s\<lparr>heap := (heap s)(y \<mapsto> e\<lparr>obj_ptr := p\<rparr>)\<rparr> \<and>
           ObjectStore_insert s k p lvl a = Some s' \<and>
           ObjectStore_size s' = ObjectStore_size s \<and>
           ObjectStore_get s' k = Some p \<and>
           (\<exists>kvs. ObjectStore_iteration s' = Some kvs \<and> filter (\<lambda>kv. fst kv = k) kvs = [(k, p)])"
proof -
  from reach_inv[OF assms(1)] obtain ns fr where inv: "store_inv fr s ns" and m: "amap ns = m" by blast
  from store_inv_contains[OF inv, of k] assms(2) have "amap ns k \<noteq> None" by auto
  from insert_present_inv[OF inv this, of p lvl a] obtain y e ns' where
    r: "heap s y = Some e" "entry_value e = k"
      "ObjectStore_insert s k p lvl a = Some (s\<lparr>heap := (heap s)(y \<mapsto> e\<lparr>obj_ptr := p\<rparr>)\<rparr>)"
      "store_inv fr (s\<lparr>heap := (heap s)(y \<mapsto> e\<lparr>obj_ptr := p\<rparr>)\<rparr>) ns'"
      "amap ns' = (amap ns)(k \<mapsto> p)" by blast
  let ?s' = "s\<lparr>heap := (heap s)(y \<mapsto> e\<lparr>obj_ptr := p\<rparr>)\<rparr>"
  have sz: "ObjectStore_size ?s' = ObjectStore_size s" by (simp add: ObjectStore_size_def)
  have g: "ObjectStore_get ?s' k = Some p" using get_inv[OF r(4), of k] r(5) by simp
  let ?kvs = "map (\<lambda>n. (n_key n, n_obj n)) ns'"
  have it: "ObjectStore_iteration ?s' = Some ?kvs" by (rule iteration_inv[OF r(4)])
  from r(4) have "sorted_wrt (<) (map n_key ns')" by (simp add: store_inv_def)
  then have "distinct (map fst ?kvs)" using keys_distinct by (simp add: comp_def)
  moreover have "map_of ?kvs k = Some p" using r(5) by (simp add: map_of_pairs)
  ultimately have "filter (\<lambda>kv. fst kv = k) ?kvs = [(k, p)]" by (rule filter_key)
  with r(1-3) sz g it show ?thesis by blast
qed

text \<open>
  Inserting the key \<open>5\<close> again, with the handle \<open>51\<close>, into the one-key store.
\<close>

theorem C4_insert_present_witness:
  "reach example_store [5 \<mapsto> Some 50] True \<and> ObjectStore_contains example_store 5 = Some True \<and>
   (\<exists>s'. ObjectStore_insert example_store 5 (Some 51) 3 2 = Some s' \<and>
      ObjectStore_size s' = 1 \<and> ObjectStore_get s' 5 = Some (Some 51) \<and>
      ObjectStore_iteration s' = Some [(5, Some 51)])"
proof -
  have c5: "ObjectStore_contains example_store 5 = Some True"
    by (simp add: ObjectStore_contains_def example_store_def get_forward_def advance.simps)
  have sz: "ObjectStore_size example_store = 1"
    by (simp add: ObjectStore_size_def example_store_def)
  from C4_insert_present[OF example_store_reach c5, of "Some 51" 3 2] obtain y e s' where
    r: "heap example_store y = Some e" "entry_value e = 5"
      "s' = example_store\<lparr>heap := (heap example_store)(y \<mapsto> e\<lparr>obj_ptr := Some 51\<rparr>)\<rparr>"
      "ObjectStore_insert example_store 5 (Some 51) 3 2 = Some s'"
      "ObjectStore_size s' = ObjectStore_size example_store"
      "ObjectStore_get s' 5 = Some (Some 51)" by blast
  from r(1,2) have y: "y = 1" "e = \<lparr>entry_value = 5, obj_ptr = Some 50,
                     forward = [None, None], link_length = [1, 1]\<rparr>"
    by (auto simp: example_store_def split: if_splits)
  have "ObjectStore_iteration s' = Some [(5, Some 51)]"
    unfolding r(3) y
    by (simp add: ObjectStore_iteration_def ObjectStore_begin_def example_store_def
        get_forward_def iterate.simps)
  with r sz c5 example_store_reach show ?thesis by auto
qed

text \<open>
  Claim C5. For every reachable store, iterating from \<open>begin()\<close> until \<open>end()\<close> is
  reached terminates; the keys of the entries visited are strictly ascending, the
  entries visited are exactly the keys present with their handles, and their number is
  \<open>size()\<close>. The iteration is a function of the store and does not write to it, so two
  iterations over the same store yield the same sequence.
\<close>

theorem C5_iteration:
  assumes "reach s m b"
  shows "\<exists>kvs. ObjectStore_iteration s = Some kvs \<and> sorted_wrt (<) (map fst kvs) \<and>
           map_of kvs = m \<and> int (length kvs) = ObjectStore_size s"
proof -
  from reach_inv[OF assms] obtain ns fr where inv: "store_inv fr s ns" and m: "amap ns = m" by blast
  let ?kvs = "map (\<lambda>n. (n_key n, n_obj n)) ns"
  have "ObjectStore_iteration s = Some ?kvs" by (rule iteration_inv[OF inv])
  moreover from inv have "sorted_wrt (<) (map fst ?kvs)" by (simp add: store_inv_def comp_def)
  moreover have "map_of ?kvs = m" using m by (simp add: map_of_pairs)
  moreover from inv have "int (length ?kvs) = ObjectStore_size s"
    by (simp add: store_inv_def ObjectStore_size_def)
  ultimately show ?thesis by blast
qed

text \<open>
  Iterating over the one-key store yields its one entry.
\<close>

theorem C5_iteration_witness:
  "reach example_store [5 \<mapsto> Some 50] True \<and>
   (\<exists>kvs. ObjectStore_iteration example_store = Some kvs \<and> sorted_wrt (<) (map fst kvs) \<and>
      map_of kvs = [5 \<mapsto> Some 50]) \<and>
   ObjectStore_iteration example_store = Some [(5, Some 50)]"
proof -
  have "ObjectStore_iteration example_store = Some [(5, Some 50)]"
    by (simp add: ObjectStore_iteration_def ObjectStore_begin_def example_store_def
        get_forward_def iterate.simps)
  with C5_iteration[OF example_store_reach] example_store_reach show ?thesis by auto
qed

text \<open>
  Claim C10, as stated, at the store built by \<open>insert(5, NULL)\<close>: \<open>contains(5)\<close> is true
  while \<open>get(5)\<close> returns the null handle.
\<close>

theorem C10_null_handle_counterexample:
  "ObjectStore_insert (ObjectStore_new 0) 5 None 0 1 = Some null_store \<and>
   ObjectStore_contains null_store 5 = Some True \<and>
   ObjectStore_get null_store 5 = Some None"
proof -
  have "ObjectStore_insert (ObjectStore_new 0) 5 None 0 1 = Some null_store"
    unfolding null_store_def by (simp add: eval_defs, intro ext, simp)
  moreover have "ObjectStore_contains null_store 5 = Some True"
    by (simp add: ObjectStore_contains_def null_store_def get_forward_def advance.simps)
  moreover have "ObjectStore_get null_store 5 = Some None"
    by (simp add: ObjectStore_get_def null_store_def get_forward_def advance.simps)
  ultimately show ?thesis by simp
qed

text \<open>
  Claim C10 (amended): for every reachable store and every key \<open>k\<close>, \<open>contains(k)\<close> and
  \<open>get(k)\<close> return without an error and, being \<open>const\<close>, without a new store;
  \<open>contains(k)\<close> is true if and only if \<open>k\<close> is present, and \<open>get(k)\<close> returns the handle
  stored for \<open>k\<close>, null when \<open>k\<close> is absent. Hence \<open>contains(k)\<close> is true if and only if
  \<open>get(k)\<close> is not null, provided the handle stored for \<open>k\<close> is not itself null.
\<close>

theorem C10_contains_get:
  assumes "reach s m b"
  shows "\<exists>c g. ObjectStore_contains s k = Some c \<and> ObjectStore_get s k = Some g \<and>
           (c \<longleftrightarrow> k \<in> dom m) \<and> g = (case m k of None \<Rightarrow> None | Some p \<Rightarrow> p) \<and>
           (m k \<noteq> Some None \<longrightarrow> (c \<longleftrightarrow> g \<noteq> None))"
proof -
  from reach_inv[OF assms(1)] obtain ns fr where inv: "store_inv fr s ns" and m: "amap ns = m" by blast
  from store_inv_contains[OF inv, of k] get_inv[OF inv, of k] m
  show ?thesis by (auto simp: dom_def split: option.splits)
qed

text \<open>
  In the one-key store \<open>contains(5)\<close> is true and \<open>get(5)\<close> returns the handle \<open>50\<close>.
\<close>

theorem C10_contains_get_witness:
  "reach example_store [5 \<mapsto> Some 50] True \<and> [5 \<mapsto> Some (50::nat)] 5 \<noteq> Some None \<and>
   ObjectStore_contains example_store 5 = Some True \<and>
   ObjectStore_get example_store 5 = Some (Some 50)"
proof -
  have c5: "ObjectStore_contains example_store 5 = Some True"
    by (simp add: ObjectStore_contains_def example_store_def get_forward_def advance.simps)
  have "[5 \<mapsto> Some (50::nat)] (5::int) \<noteq> Some None" by simp
  from C10_contains_get[OF example_store_reach, of 5] this c5 example_store_reach
  have "ObjectStore_get example_store 5 \<noteq> Some None \<and> ObjectStore_get example_store 5 \<noteq> None"
    by auto
  moreover have "ObjectStore_get example_store 5 = Some (Some 50)"
    by (simp add: ObjectStore_get_def example_store_def get_forward_def advance.simps)
  ultimately show ?thesis using c5 example_store_reach by simp
qed

section \<open>Properties of the MLNetwork\<close>

text \<open>
  Claim C6. In every network that the interface can build, \<open>add_edge(node1, node2)\<close>
  fails with \<open>DuplicateElementException\<close> when a live edge with the same effective
  endpoint pair exists: an edge from \<open>node1\<close> to \<open>node2\<close>, or, when the pair of the
  nodes' layers is undirected, an edge from \<open>node2\<close> to \<open>node1\<close>. The network
  returned with the failure is the network given: no index is modified.
\<close>

theorem C6_add_edge_duplicate:
  assumes "MLNetwork_reach net"
    and "fmlookup (edges_by_id net) i = Some e"
    and "edge_v1 e = node1 \<and> edge_v2 e = node2 \<or>
         \<not> is_directed net (node_layer node1) (node_layer node2) \<and>
         edge_v1 e = node2 \<and> edge_v2 e = node1"
  shows "add_edge net node1 node2 = (Inl DuplicateElementException, net)"
proof -
  from reach_inv_net[OF assms(1)] have "edges_inv net" by (simp add: MLNetwork_inv_def)
  with assms(2) have v: "fmlookup (nodes_by_id net) (node_id (edge_v1 e)) = Some (edge_v1 e)"
      "fmlookup (nodes_by_id net) (node_id (edge_v2 e)) = Some (edge_v2 e)"
      "lookup2 (edges_by_nodes net) (node_id (edge_v1 e)) (node_id (edge_v2 e)) = Some e"
    unfolding edges_inv_def by blast+
  from assms(3) v(1,2)
  have live: "\<not> (get_node net (node_id node1) \<noteq> Some node1 \<or> get_node net (node_id node2) \<noteq> Some node2)"
    by (auto simp: get_node_def)
  from assms(3) v(3)
  have "get_edge net node1 node2 \<noteq> None \<or>
      (\<not> is_directed net (node_layer node1) (node_layer node2) \<and> get_edge net node2 node1 \<noteq> None)"
    by (auto simp: get_edge_def)
  with live show ?thesis by (rule add_edge_duplicate)
qed

text \<open>
  In the example network, whose layer is undirected, a second edge between the two
  nodes is refused in either order.
\<close>

theorem C6_add_edge_duplicate_witness:
  "MLNetwork_reach example_net \<and> fmlookup (edges_by_id example_net) 1 = Some ex_e1 \<and>
   edge_v1 ex_e1 = ex_n1 \<and> edge_v2 ex_e1 = ex_n2 \<and>
   is_directed example_net (node_layer ex_n2) (node_layer ex_n1) = False \<and>
   add_edge example_net ex_n1 ex_n2 = (Inl DuplicateElementException, example_net) \<and>
   add_edge example_net ex_n2 ex_n1 = (Inl DuplicateElementException, example_net)"
proof -
  have l: "fmlookup (edges_by_id example_net) 1 = Some ex_e1"
    by (simp add: example_net_fields)
  have v: "edge_v1 ex_e1 = ex_n1" "edge_v2 ex_e1 = ex_n2" by (simp_all add: ex_e1_def)
  have d: "is_directed example_net (node_layer ex_n2) (node_layer ex_n1) = False"
    by (simp add: ex_n1_def ex_n2_def)
  from C6_add_edge_duplicate[OF example_net_reach l, of ex_n1 ex_n2]
    C6_add_edge_duplicate[OF example_net_reach l, of ex_n2 ex_n1] l v d example_net_reach
  show ?thesis by simp
qed



text \<open>
  Claim C9. For every network of which \<open>a\<close> is an actor, after erasing \<open>a\<close>: \<open>a\<close> is
  in neither actor index nor in the per-actor node index, the number of actors has
  dropped by one, and all other actors are where they were; no node owned by \<open>a\<close>
  is referred to by any node index, adjacency store or edge, and no edge in any edge
  index has an endpoint owned by \<open>a\<close>; exactly the nodes owned by \<open>a\<close> have left the
  global node index and exactly the edges incident to them the global edge index; the
  adjacency stores of the erased nodes are gone.
\<close>

theorem C9_erase_actor:
  assumes "get_actor net (actor_id a) = Some a"
  shows "get_actor (erase_actor net a) (actor_id a) = None \<and>
         get_actor_by_name (erase_actor net a) (actor_name a) = None \<and>
         fmlookup (nodes_by_actor_and_id (erase_actor net a)) (actor_id a) = None \<and>
         fcard (fmdom (actors_by_id net)) = fcard (fmdom (actors_by_id (erase_actor net a))) + 1 \<and>
         (\<forall>i. i \<noteq> actor_id a \<longrightarrow> get_actor (erase_actor net a) i = get_actor net i) \<and>
         (\<forall>n\<in>index_nodes (erase_actor net a). \<not> owned_by a n) \<and>
         (\<forall>e\<in>index_edges (erase_actor net a).
            \<not> owned_by a (edge_v1 e) \<and> \<not> owned_by a (edge_v2 e)) \<and>
         (\<forall>i n. get_node net i = Some n \<longrightarrow>
            get_node (erase_actor net a) i = (if owned_by a n then None else Some n)) \<and>
         (\<forall>i n. get_node net i = Some n \<and> owned_by a n \<longrightarrow>
            fmlookup (neighbors_out (erase_actor net a)) i = None \<and>
            fmlookup (neighbors_in (erase_actor net a)) i = None \<and>
            fmlookup (neighbors_all (erase_actor net a)) i = None) \<and>
         (\<forall>i e. fmlookup (edges_by_id net) i = Some e \<longrightarrow>
            fmlookup (edges_by_id (erase_actor net a)) i =
              (if owned_by a (edge_v1 e) \<or> owned_by a (edge_v2 e) then None else Some e))"
proof -
  let ?P = "\<lambda>n. actor_id (node_actor n) = actor_id a"
  from assms have "actor_id a |\<in>| fmdom (actors_by_id net)"
    by (simp add: get_actor_def fmdomI)
  then have card: "fcard (fmdom (actors_by_id net)) =
      fcard (fmdom (actors_by_id (erase_actor net a))) + 1"
    using fcard_Suc_fminus1[of "actor_id a" "fmdom (actors_by_id net)"] by simp
  have nodes: "\<forall>n\<in>index_nodes (erase_actor net a). \<not> owned_by a n"
    using index_nodes_erase_actor[of net a] index_nodes_erase_nodes[of _ net ?P]
    by (auto simp: owned_by_def)
  have edges: "\<forall>e\<in>index_edges (erase_actor net a).
      \<not> owned_by a (edge_v1 e) \<and> \<not> owned_by a (edge_v2 e)"
    using index_edges_erase_nodes[of _ net ?P]
    by (auto simp: owned_by_def index_edges_erase_actor)
  have adj: "\<forall>i n. get_node net i = Some n \<and> owned_by a n \<longrightarrow>
            fmlookup (neighbors_out (erase_actor net a)) i = None \<and>
            fmlookup (neighbors_in (erase_actor net a)) i = None \<and>
            fmlookup (neighbors_all (erase_actor net a)) i = None"
    by (auto simp: get_node_def owned_by_def erase_nodes_neighbors_key)
  have rest: "get_actor (erase_actor net a) (actor_id a) = None"
    "get_actor_by_name (erase_actor net a) (actor_name a) = None"
    "fmlookup (nodes_by_actor_and_id (erase_actor net a)) (actor_id a) = None"
    "\<forall>i. i \<noteq> actor_id a \<longrightarrow> get_actor (erase_actor net a) i = get_actor net i"
    "\<forall>i n. get_node net i = Some n \<longrightarrow>
            get_node (erase_actor net a) i = (if owned_by a n then None else Some n)"
    "\<forall>i e. fmlookup (edges_by_id net) i = Some e \<longrightarrow>
            fmlookup (edges_by_id (erase_actor net a)) i =
              (if owned_by a (edge_v1 e) \<or> owned_by a (edge_v2 e) then None else Some e)"
    by (simp_all add: get_actor_def get_actor_by_name_def get_node_def owned_by_def)
  from card nodes edges adj rest show ?thesis by blast
qed

text \<open>
  Erasing the first actor of the example network leaves one actor, the second
  actor's node, and no edge.
\<close>

theorem C9_erase_actor_witness:
  "get_actor example_net (actor_id ex_a1) = Some ex_a1 \<and>
   get_actor (erase_actor example_net ex_a1) 1 = None \<and>
   get_actor (erase_actor example_net ex_a1) 2 = Some ex_a2 \<and>
   fcard (fmdom (actors_by_id example_net)) = 2 \<and>
   fcard (fmdom (actors_by_id (erase_actor example_net ex_a1))) = 1 \<and>
   get_node (erase_actor example_net ex_a1) 1 = None \<and>
   get_node (erase_actor example_net ex_a1) 2 = Some ex_n2 \<and>
   fmlookup (edges_by_id (erase_actor example_net ex_a1)) 1 = None"
proof -
  have l: "get_actor example_net (actor_id ex_a1) = Some ex_a1"
    by (simp add: get_actor_def example_net_fields ex_a1_def)
  have c: "fcard (fmdom (actors_by_id example_net)) = 2"
    by (simp add: example_net_fields fcard_finsert_if)
  have g: "get_actor example_net 2 = Some ex_a2"
    "get_node example_net 1 = Some ex_n1" "get_node example_net 2 = Some ex_n2"
    "fmlookup (edges_by_id example_net) 1 = Some ex_e1"
    by (simp_all add: get_actor_def get_node_def example_net_fields)
  have o: "owned_by ex_a1 ex_n1" "\<not> owned_by ex_a1 ex_n2" "owned_by ex_a1 (edge_v1 ex_e1)"
    "actor_id ex_a1 = 1"
    by (simp_all add: owned_by_def ex_a1_def ex_a2_def ex_n1_def ex_n2_def ex_e1_def)
  from C9_erase_actor[OF l] l c g o show ?thesis by simp
qed

end
